theory Spec2Isabelle
  imports
    Complex_Main
    "HOL-Library.Sublist"
    "HOL-Library.List_Lexorder"
    "HOL-Library.Char_ord"
    "HOL-Library.Multiset"
begin

section \<open>Conventions of the embedding\<close>

text \<open>
  The library is TypeScript. Its strings are modelled as \<^typ>\<open>string\<close>, its numbers that
  count (lengths, indices, edit distances) as \<^typ>\<open>nat\<close>, and its scores as \<^typ>\<open>real\<close>:
  a score is a finite number (\<^verbatim>\<open>NaN\<close> and the two infinities, which a scorer of the caller's
  could return, are not modelled), and the arithmetic of doubles on scores is idealised to
  exact arithmetic. Where the selection engines take an index or a threshold from the product
  of a length and a fraction, the product is computed as the double it is, see below.
  A \<^verbatim>\<open>throw\<close> is the left summand of a sum type, so a function that may raise returns
  \<open>error + 'a\<close>. An array slot that was never written (a hole of \<^verbatim>\<open>new Array(n)\<close>) or that
  lies outside the array reads as \<^verbatim>\<open>undefined\<close>, which is \<open>None\<close> here.
\<close>

datatype error = Error string

fun bindE :: "error + 'a \<Rightarrow> ('a \<Rightarrow> error + 'b) \<Rightarrow> error + 'b" where
  "bindE (Inl e) f = Inl e"
| "bindE (Inr v) f = f v"

text \<open>\<^verbatim>\<open>xs[i]\<close> on an array or a string: \<^verbatim>\<open>undefined\<close> outside the bounds.\<close>

definition nthOpt :: "'a list \<Rightarrow> nat \<Rightarrow> 'a option" where
  "nthOpt xs i = (if i < length xs then Some (xs ! i) else None)"

text \<open>A loop over a range whose body may throw; the state is threaded through.\<close>

primrec foldE :: "('s \<Rightarrow> 'i \<Rightarrow> error + 's) \<Rightarrow> 'i list \<Rightarrow> 's \<Rightarrow> error + 's" where
  "foldE f [] s = Inr s"
| "foldE f (i # is) s = (case f s i of Inl e \<Rightarrow> Inl e | Inr s' \<Rightarrow> foldE f is s')"

text \<open>
  A non-negative double is given by a significand and a number of binary places: it is
  \<open>significand / 2 ^ binaryScale\<close>.
\<close>

record double =
  significand :: nat
  binaryScale :: nat

text \<open>The number of binary digits of a natural number.\<close>

fun bitLength :: "nat \<Rightarrow> nat" where
  "bitLength n = (if n = 0 then 0 else Suc (bitLength (n div 2)))"

declare bitLength.simps [simp del]

text \<open>
  Rounding to 53 significant binary digits, to the nearest and on a tie to the even
  significand, as every arithmetic operation on doubles rounds its exact result.
\<close>

definition round53 :: "nat \<Rightarrow> nat" where
  "round53 n =
     (if bitLength n \<le> 53 then n
      else
        let s = bitLength n - 53;
            q = n div 2 ^ s;
            r = n mod 2 ^ s in
        if 2 * r > 2 ^ s \<or> (2 * r = 2 ^ s \<and> odd q) then (q + 1) * 2 ^ s else q * 2 ^ s)"

text \<open>
  \<^verbatim>\<open>n * d\<close> for a length or count \<open>n\<close> and a double \<open>d\<close>: the exact product, rounded. (Lengths
  are below \<open>2 ^ 53\<close>, so \<open>n\<close> is itself a double.)
\<close>

definition timesDouble :: "nat \<Rightarrow> double \<Rightarrow> real" where
  "timesDouble n d = real (round53 (n * significand d)) / 2 ^ binaryScale d"

text \<open>\<^verbatim>\<open>Math.floor\<close> of a number that is not negative.\<close>

definition mathFloor :: "real \<Rightarrow> nat" where
  "mathFloor x = nat \<lfloor>x\<rfloor>"

text \<open>
  The doubles that the literals \<^verbatim>\<open>0.1\<close>, \<^verbatim>\<open>0.15\<close>, \<^verbatim>\<open>0.2\<close>, \<^verbatim>\<open>0.3\<close>, \<^verbatim>\<open>0.5\<close>, \<^verbatim>\<open>0.7\<close>
  and \<^verbatim>\<open>0.9\<close> denote.
\<close>

definition dbl_0_1 :: double where
  "dbl_0_1 = \<lparr>significand = 7205759403792794, binaryScale = 56\<rparr>"

definition dbl_0_15 :: double where
  "dbl_0_15 = \<lparr>significand = 5404319552844595, binaryScale = 55\<rparr>"

definition dbl_0_2 :: double where
  "dbl_0_2 = \<lparr>significand = 7205759403792794, binaryScale = 55\<rparr>"

definition dbl_0_3 :: double where
  "dbl_0_3 = \<lparr>significand = 5404319552844595, binaryScale = 54\<rparr>"

definition dbl_0_5 :: double where
  "dbl_0_5 = \<lparr>significand = 4503599627370496, binaryScale = 53\<rparr>"

definition dbl_0_7 :: double where
  "dbl_0_7 = \<lparr>significand = 6305039478318694, binaryScale = 53\<rparr>"

definition dbl_0_9 :: double where
  "dbl_0_9 = \<lparr>significand = 8106479329266893, binaryScale = 53\<rparr>"

section \<open>The runtime\<close>

text \<open>
  Three functions that the selection engines call are not the library's but the runtime's:
  \<^verbatim>\<open>Array.prototype.sort\<close>, \<^verbatim>\<open>String.prototype.localeCompare\<close> and \<^verbatim>\<open>Math.random\<close>. The
  engines take them as a parameter, the record \<open>runtime\<close>.

  Of \<^verbatim>\<open>sort\<close> with a comparator the type below fixes only that it returns the elements of
  the array in some order. In which order is part of its contract for a comparator that is a
  consistent order; for any other comparator it is left to the implementation.
\<close>

typedef 'a sortFunction =
  "{f :: ('a \<Rightarrow> 'a \<Rightarrow> real) \<Rightarrow> 'a list \<Rightarrow> 'a list. \<forall>cmp xs. mset (f cmp xs) = mset xs}"
  morphisms sortWith SortFunction
  by (intro exI [of _ "\<lambda>cmp xs. xs"]) simp

section \<open>core/levenshtein.ts\<close>

text \<open>
  The two rows of the dynamic programme are arrays of numbers allocated with
  \<^verbatim>\<open>new Array<number>(len2 + 1)\<close>: every slot starts as a hole.
\<close>

type_synonym row = "nat option list"

definition newArray :: "nat \<Rightarrow> row" where
  "newArray n = replicate n None"

text \<open>\<^verbatim>\<open>row[j]\<close>: a hole and an index out of range both read as \<^verbatim>\<open>undefined\<close>.\<close>

definition rowAt :: "row \<Rightarrow> nat \<Rightarrow> nat option" where
  "rowAt r j = (if j < length r then r ! j else None)"

text \<open>\<^verbatim>\<open>row[j] = v\<close>: JavaScript extends the array when \<open>j\<close> is past its end.\<close>

definition setAt :: "row \<Rightarrow> nat \<Rightarrow> nat \<Rightarrow> row" where
  "setAt r j v =
     (if j < length r then r[j := Some v]
      else r @ replicate (j - length r) None @ [Some v])"

text \<open>\<^verbatim>\<open>for (let j = 0; j <= len2; j++) row1[j] = j\<close>\<close>

definition initRow :: "nat \<Rightarrow> row \<Rightarrow> row" where
  "initRow len2 row1 = fold (\<lambda>j r. setAt r j j) [0..<len2 + 1] row1"

text \<open>The body of the inner loop, with its guard against \<^verbatim>\<open>undefined\<close>.\<close>

definition levCell :: "string \<Rightarrow> string \<Rightarrow> nat \<Rightarrow> row \<Rightarrow> row \<Rightarrow> nat \<Rightarrow> error + row" where
  "levCell s1 s2 i prevRow currRow j =
     (let cost = (if nthOpt s1 (i - 1) = nthOpt s2 (j - 1) then 0 else 1 :: nat) in
      case (rowAt currRow (j - 1), rowAt prevRow j, rowAt prevRow (j - 1)) of
        (Some currJMinus1, Some prevJ, Some prevJMinus1) \<Rightarrow>
          Inr (setAt currRow j (min (currJMinus1 + 1) (min (prevJ + 1) (prevJMinus1 + cost))))
      | _ \<Rightarrow> Inl (Error ''Array index out of bounds''))"

text \<open>One pass of the outer loop: fill \<open>currRow\<close>, then swap the two references.\<close>

definition levRow :: "string \<Rightarrow> string \<Rightarrow> nat \<Rightarrow> row \<times> row \<Rightarrow> nat \<Rightarrow> error + row \<times> row" where
  "levRow s1 s2 len2 rows i =
     (case rows of (prevRow, currRow) \<Rightarrow>
        bindE (foldE (levCell s1 s2 i prevRow) [1..<len2 + 1] (setAt currRow 0 i))
          (\<lambda>currRow'. Inr (currRow', prevRow)))"

function levenshteinDistance :: "string \<Rightarrow> string \<Rightarrow> error + nat" where
  "levenshteinDistance s1 s2 =
     (let len1 = length s1; len2 = length s2 in
      if len1 = 0 then Inr len2
      else if len2 = 0 then Inr len1
      else if s1 = s2 then Inr 0
      else if len1 < len2 then levenshteinDistance s2 s1
      else
        bindE (foldE (levRow s1 s2 len2) [1..<len1 + 1]
                 (initRow len2 (newArray (len2 + 1)), newArray (len2 + 1)))
          (\<lambda>rows. case rows of (prevRow, currRow) \<Rightarrow>
             (case rowAt prevRow len2 of
                None \<Rightarrow> Inl (Error ''Array index out of bounds'')
              | Some result \<Rightarrow> Inr result)))"
  by pat_completeness auto
termination
  by (relation "measure (\<lambda>(s1, s2). if length s1 < length s2 then 1 else 0)") auto

declare levenshteinDistance.simps [simp del]

definition levenshteinRatio :: "string \<Rightarrow> string \<Rightarrow> error + real" where
  "levenshteinRatio s1 s2 =
     (if s1 = s2 then Inr 100
      else bindE (levenshteinDistance s1 s2) (\<lambda>distance.
        let maxLen = max (length s1) (length s2) in
        if maxLen = 0 then Inr 100
        else if distance = 0 then Inr 100
        else if distance \<ge> maxLen then Inr 0
        else Inr (((real maxLen - real distance) / real maxLen) * 100)))"

section \<open>core/tokenizer.ts\<close>

text \<open>
  \<^verbatim>\<open>toLowerCase\<close> is the runtime's. The characters of \<^typ>\<open>string\<close> are the 256 code
  units of Latin-1; among them the upper-case letters are \<^verbatim>\<open>A\<close> to \<^verbatim>\<open>Z\<close> and the
  accented capitals at 192 to 214 and 216 to 222, each 32 below its lower-case letter.
\<close>

definition charCodeAt0 :: "char \<Rightarrow> nat" where
  "charCodeAt0 c = of_char c"

definition lowerChar :: "char \<Rightarrow> char" where
  "lowerChar c =
     (if (65 \<le> charCodeAt0 c \<and> charCodeAt0 c \<le> 90)
         \<or> (192 \<le> charCodeAt0 c \<and> charCodeAt0 c \<le> 214)
         \<or> (216 \<le> charCodeAt0 c \<and> charCodeAt0 c \<le> 222)
      then char_of (charCodeAt0 c + 32) else c)"

definition toLowerCase :: "string \<Rightarrow> string" where
  "toLowerCase s = map lowerChar s"

text \<open>\<^verbatim>\<open>tokens.join(' ')\<close>\<close>

fun joinSpace :: "string list \<Rightarrow> string" where
  "joinSpace [] = []"
| "joinSpace [t] = t"
| "joinSpace (t # u # ts) = t @ '' '' @ joinSpace (u # ts)"

text \<open>
  One character of the scan: the state is the array \<open>tokens\<close> and the buffer
  \<open>tokenChars\<close>.
\<close>

definition tokenizeStep :: "string list \<times> string \<Rightarrow> char \<Rightarrow> string list \<times> string" where
  "tokenizeStep st char =
     (case st of (tokens, tokenChars) \<Rightarrow>
        let code = charCodeAt0 char in
        if code = 32 \<or> code = 9 \<or> code = 10 \<or> code = 45 \<or> code = 95 then
          (if length tokenChars > 0 then (tokens @ [toLowerCase tokenChars], [])
           else (tokens, tokenChars))
        else (tokens, tokenChars @ [char]))"

definition tokenize :: "string \<Rightarrow> string list" where
  "tokenize str =
     (case fold (\<lambda>char st. tokenizeStep st char) str ([], []) of
        (tokens, tokenChars) \<Rightarrow>
          if length tokenChars > 0 then tokens @ [toLowerCase tokenChars] else tokens)"

text \<open>
  \<^verbatim>\<open>sort()\<close> without a comparator and \<^verbatim>\<open><\<close> on strings both compare code unit by code
  unit: the lexicographic order of \<^typ>\<open>string\<close>.
\<close>

definition sortTokens :: "string list \<Rightarrow> string" where
  "sortTokens tokens =
     (if length tokens \<le> 1 then joinSpace tokens
      else if length tokens = 2 then
        (let t0 = tokens ! 0; t1 = tokens ! 1 in
         if t0 < t1 then t0 @ '' '' @ t1 else t1 @ '' '' @ t0)
      else joinSpace (sort tokens))"

text \<open>
  A \<^verbatim>\<open>Set<string>\<close> keeps its elements in the order of their first insertion: a list
  without duplicates.
\<close>

definition setAdd :: "string list \<Rightarrow> string \<Rightarrow> string list" where
  "setAdd s t = (if t \<in> set s then s else s @ [t])"

definition setHas :: "string list \<Rightarrow> string \<Rightarrow> bool" where
  "setHas s t = (t \<in> set s)"

definition tokenSet :: "string list \<Rightarrow> string list" where
  "tokenSet tokens = fold (\<lambda>t s. setAdd s t) tokens []"

section \<open>core/partialRatio.ts\<close>

text \<open>The string methods of the runtime that the scorer calls.\<close>

primrec includesStr :: "string \<Rightarrow> string \<Rightarrow> bool" where
  "includesStr [] needle = (needle = [])"
| "includesStr (c # hay) needle = (prefix needle (c # hay) \<or> includesStr hay needle)"

definition startsWith :: "string \<Rightarrow> string \<Rightarrow> bool" where
  "startsWith hay needle = prefix needle hay"

definition endsWith :: "string \<Rightarrow> string \<Rightarrow> bool" where
  "endsWith hay needle = suffix needle hay"

definition substring :: "string \<Rightarrow> nat \<Rightarrow> nat \<Rightarrow> string" where
  "substring s indexStart indexEnd =
     (let st = min indexStart (length s); en = min indexEnd (length s) in
      take (max st en - min st en) (drop (min st en) s))"

text \<open>The sliding window, from offset to offset, with its \<^verbatim>\<open>break\<close> on 100.\<close>

fun partialLoop :: "string \<Rightarrow> string \<Rightarrow> nat \<Rightarrow> nat list \<Rightarrow> real \<Rightarrow> error + real" where
  "partialLoop shorter longer windowSize [] bestRatio = Inr bestRatio"
| "partialLoop shorter longer windowSize (i # is) bestRatio =
     bindE (levenshteinRatio shorter (substring longer i (i + windowSize))) (\<lambda>ratio.
       let bestRatio' = max bestRatio ratio in
       if bestRatio' = 100 then Inr bestRatio'
       else partialLoop shorter longer windowSize is bestRatio')"

definition partialRatio :: "string \<Rightarrow> string \<Rightarrow> error + real" where
  "partialRatio s1 s2 =
     (let shorter = (if length s1 \<le> length s2 then s1 else s2);
          longer = (if length s1 > length s2 then s1 else s2) in
      if length shorter = 0 then Inr 0
      else if length longer = 0 then Inr 0
      else if includesStr longer shorter then Inr 100
      else if startsWith longer shorter \<or> endsWith longer shorter then Inr 100
      else
        let windowSize = length shorter;
            maxPos = length longer - windowSize in
        partialLoop shorter longer windowSize [0..<maxPos + 1] 0)"

section \<open>core/tokenSortRatio.ts\<close>

definition tokenSortRatio :: "string \<Rightarrow> string \<Rightarrow> error + real" where
  "tokenSortRatio s1 s2 =
     (let tokens1 = tokenize s1; tokens2 = tokenize s2 in
      if length tokens1 = 0 \<and> length tokens2 = 0 then Inr 100
      else if length tokens1 = 0 \<or> length tokens2 = 0 then Inr 0
      else
        let sorted1 = sortTokens tokens1; sorted2 = sortTokens tokens2 in
        if sorted1 = sorted2 then Inr 100
        else levenshteinRatio sorted1 sorted2)"

section \<open>core/tokenSetRatio.ts\<close>

text \<open>
  The first pass sends every token of \<open>set1\<close> to \<open>intersection\<close> or to \<open>only1\<close>; the
  second collects in \<open>only2\<close> the tokens of \<open>set2\<close> that \<open>set1\<close> lacks.
\<close>

definition splitTokens :: "string list \<Rightarrow> string list \<Rightarrow> string list \<times> string list" where
  "splitTokens set1 set2 =
     fold (\<lambda>token st. case st of (intersection, only1) \<Rightarrow>
             if setHas set2 token then (setAdd intersection token, only1)
             else (intersection, setAdd only1 token))
       set1 ([], [])"

definition onlySecond :: "string list \<Rightarrow> string list \<Rightarrow> string list" where
  "onlySecond set1 set2 =
     fold (\<lambda>token only2. if \<not> setHas set1 token then setAdd only2 token else only2) set2 []"

definition tokenSetRatio :: "string \<Rightarrow> string \<Rightarrow> error + real" where
  "tokenSetRatio s1 s2 =
     (let tokens1 = tokenize s1; tokens2 = tokenize s2 in
      if length tokens1 = 0 \<and> length tokens2 = 0 then Inr 100
      else if length tokens1 = 0 \<or> length tokens2 = 0 then Inr 0
      else
        let set1 = tokenSet tokens1; set2 = tokenSet tokens2 in
        case splitTokens set1 set2 of (intersectionArr, only1Arr) \<Rightarrow>
          let only2Arr = onlySecond set1 set2 in
          if length intersectionArr = 0 then Inr 0
          else
            let intersectionStr = sortTokens intersectionArr;
                combined1 = sortTokens (intersectionArr @ only1Arr);
                combined2 = sortTokens (intersectionArr @ only2Arr) in
            bindE (if length intersectionStr > 0
                   then levenshteinRatio intersectionStr combined1 else Inr 0) (\<lambda>ratio1.
            bindE (if length intersectionStr > 0
                   then levenshteinRatio intersectionStr combined2 else Inr 0) (\<lambda>ratio2.
            bindE (levenshteinRatio combined1 combined2) (\<lambda>ratio3.
              Inr (max ratio1 (max ratio2 ratio3))))))"

section \<open>core/weightedRatio.ts\<close>

text \<open>
  \<open>lenRatio\<close> is computed before the test for identical strings. For two empty strings
  it is \<^verbatim>\<open>0 / 0\<close>, which nothing reads: the function has returned 100 by then.
\<close>

definition weightedRatio :: "string \<Rightarrow> string \<Rightarrow> error + real" where
  "weightedRatio s1 s2 =
     (let len1 = length s1; len2 = length s2;
          lenRatio = (if len1 > len2 then real len2 / real len1 else real len1 / real len2) in
      if s1 = s2 then Inr 100
      else if lenRatio > 0.8 then
        bindE (levenshteinRatio s1 s2) (\<lambda>simpleRatio.
          if simpleRatio = 100 then Inr 100
          else bindE (tokenSortRatio s1 s2) (\<lambda>tokenSort.
            if tokenSort = 100 then Inr 100
            else bindE (tokenSetRatio s1 s2) (\<lambda>tokenSet.
              Inr (max simpleRatio (max tokenSort tokenSet)))))
      else if lenRatio < 0.6 then
        bindE (partialRatio s1 s2) (\<lambda>partial.
          if partial = 100 then Inr 100
          else bindE (tokenSortRatio s1 s2) (\<lambda>tokenSort.
            bindE (tokenSetRatio s1 s2) (\<lambda>tokenSet.
              Inr (max partial (max (tokenSort * 0.95) (tokenSet * 0.95))))))
      else
        bindE (levenshteinRatio s1 s2) (\<lambda>simpleRatio.
          if simpleRatio = 100 then Inr 100
          else bindE (partialRatio s1 s2) (\<lambda>partial.
            if partial = 100 then Inr 100
            else bindE (tokenSortRatio s1 s2) (\<lambda>tokenSort.
              bindE (tokenSetRatio s1 s2) (\<lambda>tokenSet.
                Inr (max simpleRatio (max partial (max tokenSort tokenSet))))))))"

section \<open>utils/processor.ts and the scorers layer\<close>

text \<open>
  \<^verbatim>\<open>trim\<close> is the runtime's: it removes white space and line terminators from both ends.
  Among the 256 code units these are 9 to 13, 32 and 160.
\<close>

definition isWhiteSpace :: "char \<Rightarrow> bool" where
  "isWhiteSpace c = (charCodeAt0 c \<in> {9, 10, 11, 12, 13, 32, 160})"

definition trim :: "string \<Rightarrow> string" where
  "trim s = rev (dropWhile isWhiteSpace (rev (dropWhile isWhiteSpace s)))"

definition defaultProcessor :: "string \<Rightarrow> string" where
  "defaultProcessor str = trim (toLowerCase str)"

type_synonym ProcessorFunction = "string \<Rightarrow> string"

text \<open>
  Each scorer of the public interface applies the processor, or the default one when none
  is given, to both strings and calls the scorer of the core. The wrappers of
  \<^verbatim>\<open>partialRatio\<close>, \<^verbatim>\<open>tokenSortRatio\<close> and \<^verbatim>\<open>tokenSetRatio\<close> carry the names of the
  core functions in the source; here they end in \<open>Scorer\<close>.
\<close>

definition ratio :: "string \<Rightarrow> string \<Rightarrow> ProcessorFunction option \<Rightarrow> error + real" where
  "ratio s1 s2 processor =
     (let proc = (case processor of Some p \<Rightarrow> p | None \<Rightarrow> defaultProcessor) in
      levenshteinRatio (proc s1) (proc s2))"

definition partialRatioScorer :: "string \<Rightarrow> string \<Rightarrow> ProcessorFunction option \<Rightarrow> error + real" where
  "partialRatioScorer s1 s2 processor =
     (let proc = (case processor of Some p \<Rightarrow> p | None \<Rightarrow> defaultProcessor) in
      partialRatio (proc s1) (proc s2))"

definition tokenSortRatioScorer :: "string \<Rightarrow> string \<Rightarrow> ProcessorFunction option \<Rightarrow> error + real" where
  "tokenSortRatioScorer s1 s2 processor =
     (let proc = (case processor of Some p \<Rightarrow> p | None \<Rightarrow> defaultProcessor) in
      tokenSortRatio (proc s1) (proc s2))"

definition tokenSetRatioScorer :: "string \<Rightarrow> string \<Rightarrow> ProcessorFunction option \<Rightarrow> error + real" where
  "tokenSetRatioScorer s1 s2 processor =
     (let proc = (case processor of Some p \<Rightarrow> p | None \<Rightarrow> defaultProcessor) in
      tokenSetRatio (proc s1) (proc s2))"

definition WRatio :: "string \<Rightarrow> string \<Rightarrow> ProcessorFunction option \<Rightarrow> error + real" where
  "WRatio s1 s2 processor =
     (let proc = (case processor of Some p \<Rightarrow> p | None \<Rightarrow> defaultProcessor) in
      weightedRatio (proc s1) (proc s2))"

section \<open>process/extract.ts: the bounded top set\<close>

record ExtractResult =
  choice :: string
  score :: real

type_synonym ScorerFunction = "string \<Rightarrow> string \<Rightarrow> error + real"

text \<open>
  A loop whose body may throw, return from the enclosing function, or go on with a new
  state.
\<close>

datatype ('r, 's) flow = Throw error | Return 'r | Next 's

primrec forLoop :: "'i list \<Rightarrow> ('s \<Rightarrow> 'i \<Rightarrow> ('r, 's) flow) \<Rightarrow> 's \<Rightarrow> ('r, 's) flow" where
  "forLoop [] body s = Next s"
| "forLoop (i # is) body s =
     (case body s i of
        Throw e \<Rightarrow> Throw e
      | Return r \<Rightarrow> Return r
      | Next s' \<Rightarrow> forLoop is body s')"

text \<open>
  The runtime: \<open>arraySort\<close> is \<^verbatim>\<open>sort\<close> on arrays of results, \<open>localeCompare rt a b\<close> is
  \<^verbatim>\<open>a.localeCompare(b)\<close>, the collation of the locale, negative, zero or positive, and
  \<open>mathRandom rt v\<close> is the value of the call of \<^verbatim>\<open>Math.random()\<close> in pass \<open>v\<close> of the one loop
  that calls it.
\<close>

record runtime =
  arraySort :: "ExtractResult sortFunction"
  localeCompare :: "string \<Rightarrow> string \<Rightarrow> int"
  mathRandom :: "nat \<Rightarrow> double"

text \<open>The comparator that both \<^verbatim>\<open>sort\<close> calls of the file pass.\<close>

definition compareResults :: "runtime \<Rightarrow> ExtractResult \<Rightarrow> ExtractResult \<Rightarrow> real" where
  "compareResults rt a b =
     (let diff = score b - score a in
      if \<bar>diff\<bar> < 0.001 then real_of_int (localeCompare rt (choice a) (choice b))
      else diff)"

text \<open>
  The class \<^verbatim>\<open>MinHeap\<close>: the array \<open>heap\<close> and the capacity \<^verbatim>\<open>size\<close>, which is
  \<open>heapSize\<close> here.
\<close>

record MinHeap =
  heap :: "ExtractResult list"
  heapSize :: nat

function bubbleUp :: "ExtractResult list \<Rightarrow> nat \<Rightarrow> ExtractResult list" where
  "bubbleUp h index =
     (if index > 0 then
        (case (nthOpt h ((index - 1) div 2), nthOpt h index) of
           (Some parentItem, Some currentItem) \<Rightarrow>
             if score parentItem \<le> score currentItem then h
             else bubbleUp ((h[index := parentItem])[(index - 1) div 2 := currentItem])
                    ((index - 1) div 2)
         | _ \<Rightarrow> h)
      else h)"
  by pat_completeness auto
termination
  by (relation "measure (\<lambda>(h, index). index)") auto

declare bubbleUp.simps [simp del]

text \<open>The index that \<^verbatim>\<open>bubbleDown\<close> calls \<open>smallest\<close>, for a defined \<open>currentItem\<close>.\<close>

definition smallestChild :: "ExtractResult list \<Rightarrow> nat \<Rightarrow> ExtractResult \<Rightarrow> nat" where
  "smallestChild h index currentItem =
     (let left = 2 * index + 1;
          right = 2 * index + 2;
          currentScore = score currentItem;
          leftItem = (if left < length h then nthOpt h left else None);
          smallest = (case leftItem of
                        Some l \<Rightarrow> if score l < currentScore then left else index
                      | None \<Rightarrow> index);
          rightItem = (if right < length h then nthOpt h right else None) in
      case (rightItem, nthOpt h smallest) of
        (Some r, Some smallestItem) \<Rightarrow> if score r < score smallestItem then right else smallest
      | _ \<Rightarrow> smallest)"

function bubbleDown :: "ExtractResult list \<Rightarrow> nat \<Rightarrow> ExtractResult list" where
  "bubbleDown h index =
     (case nthOpt h index of
        None \<Rightarrow> h
      | Some currentItem \<Rightarrow>
          if smallestChild h index currentItem = index then h
          else
            (case nthOpt h (smallestChild h index currentItem) of
               None \<Rightarrow> h
             | Some smallestItemForSwap \<Rightarrow>
                 bubbleDown ((h[index := smallestItemForSwap])
                               [smallestChild h index currentItem := currentItem])
                   (smallestChild h index currentItem)))"
  by pat_completeness auto

lemma smallestChild_cases:
  "smallestChild h index c = index \<or> smallestChild h index c = 2 * index + 1
   \<or> smallestChild h index c = 2 * index + 2"
  by (simp add: smallestChild_def Let_def split: option.splits)

termination bubbleDown
proof (relation "measure (\<lambda>(h, index). length h - index)", goal_cases)
  case 1
  show ?case by simp
next
  case (2 h index c s)
  from 2(3) have "smallestChild h index c < length h"
    by (simp add: nthOpt_def split: if_splits)
  moreover from 2(2) smallestChild_cases [of h index c]
  have "index < smallestChild h index c" by auto
  ultimately show ?case by simp
qed

declare bubbleDown.simps [simp del]

text \<open>\<^verbatim>\<open>this.heap[0] = result\<close>: an empty array grows to length one.\<close>

definition setFirst :: "ExtractResult list \<Rightarrow> ExtractResult \<Rightarrow> ExtractResult list" where
  "setFirst h result = (if h = [] then [result] else h[0 := result])"

definition push :: "MinHeap \<Rightarrow> ExtractResult \<Rightarrow> MinHeap" where
  "push mh result =
     (if length (heap mh) < heapSize mh then
        mh\<lparr>heap := bubbleUp (heap mh @ [result]) (length (heap mh @ [result]) - 1)\<rparr>
      else if score result > (case nthOpt (heap mh) 0 of Some r \<Rightarrow> score r | None \<Rightarrow> 0) then
        mh\<lparr>heap := bubbleDown (setFirst (heap mh) result) 0\<rparr>
      else mh)"

definition getResults :: "runtime \<Rightarrow> MinHeap \<Rightarrow> ExtractResult list" where
  "getResults rt mh = sortWith (arraySort rt) (compareResults rt) (heap mh)"

definition newMinHeap :: "nat \<Rightarrow> MinHeap" where
  "newMinHeap n = \<lparr>heap = [], heapSize = n\<rparr>"

section \<open>process/extract.ts: extractTop\<close>

text \<open>The loop of the first tier: every candidate is scored and appended.\<close>

definition scoreInto :: "string \<Rightarrow> string list \<Rightarrow> ScorerFunction \<Rightarrow> ExtractResult list \<Rightarrow> nat
    \<Rightarrow> error + ExtractResult list" where
  "scoreInto query choices scorer results i =
     (case nthOpt choices i of
        None \<Rightarrow> Inr results
      | Some c \<Rightarrow> bindE (scorer query c) (\<lambda>sc. Inr (results @ [\<lparr>choice = c, score = sc\<rparr>])))"

text \<open>
  The body of the scan of the second and third tier; the state is the heap and
  \<open>perfectMatches\<close>. In the third tier the early exit also asks for \<open>limit\<close> results
  (\<open>needFull\<close>).
\<close>

definition scanStep :: "runtime \<Rightarrow> bool \<Rightarrow> string \<Rightarrow> string list \<Rightarrow> ScorerFunction \<Rightarrow> nat
    \<Rightarrow> MinHeap \<times> nat \<Rightarrow> nat \<Rightarrow> (ExtractResult list, MinHeap \<times> nat) flow" where
  "scanStep rt needFull query choices scorer limit st i =
     (case st of (hp, perfectMatches) \<Rightarrow>
      case nthOpt choices i of
        None \<Rightarrow> Next (hp, perfectMatches)
      | Some c \<Rightarrow>
         (case scorer query c of
            Inl e \<Rightarrow> Throw e
          | Inr sc \<Rightarrow>
              let result = \<lparr>choice = c, score = sc\<rparr> in
              if sc = 100 then
                (let perfectMatches' = perfectMatches + 1;
                     hp' = push hp result in
                 if perfectMatches' \<ge> limit then
                   (let heapResults = getResults rt hp' in
                    if (if needFull then length heapResults \<ge> limit else True)
                       \<and> list_all (\<lambda>r. score r = 100) heapResults
                    then Return (take limit heapResults)
                    else Next (hp', perfectMatches'))
                 else Next (hp', perfectMatches'))
              else Next (push hp result, perfectMatches)))"

text \<open>The confirmation chunks of the third tier: they only push.\<close>

definition pushScored :: "string \<Rightarrow> string list \<Rightarrow> ScorerFunction \<Rightarrow> MinHeap \<Rightarrow> nat \<Rightarrow> error + MinHeap" where
  "pushScored query choices scorer hp i =
     (case nthOpt choices i of
        None \<Rightarrow> Inr hp
      | Some c \<Rightarrow> bindE (scorer query c) (\<lambda>sc. Inr (push hp \<lparr>choice = c, score = sc\<rparr>)))"

definition chunkSizeOf :: "nat \<Rightarrow> nat" where
  "chunkSizeOf len =
     (if len > 200000 then 10000 else if len > 100000 then 7500
      else if len > 50000 then 5000 else 3000)"

definition sampleMore :: "runtime \<Rightarrow> string \<Rightarrow> string list \<Rightarrow> ScorerFunction \<Rightarrow> nat \<Rightarrow> nat
    \<Rightarrow> MinHeap \<Rightarrow> error + ExtractResult list" where
  "sampleMore rt query choices scorer limit processed hp =
     (let len = length choices;
          chunkSize = chunkSizeOf len;
          sampleChunks = min 2 ((len - processed) div chunkSize) in
      bindE (foldE (\<lambda>hp c.
               let sampleStart = processed + c * chunkSize;
                   sampleEnd = min (sampleStart + chunkSize) len in
               foldE (pushScored query choices scorer) [sampleStart..<sampleEnd] hp)
             [0..<sampleChunks] hp)
        (\<lambda>hp'. Inr (take limit (getResults rt hp'))))"

text \<open>
  What follows a chunk: \<open>None\<close> when the scan goes on with the next chunk, otherwise the
  outcome of the early termination.
\<close>

definition afterChunk :: "runtime \<Rightarrow> string \<Rightarrow> string list \<Rightarrow> ScorerFunction \<Rightarrow> nat \<Rightarrow> nat
    \<Rightarrow> MinHeap \<Rightarrow> (error + ExtractResult list) option" where
  "afterChunk rt query choices scorer limit processed hp =
     (let len = length choices in
      if real processed > timesDouble len dbl_0_2 then
        (let currentResults = getResults rt hp in
         if length currentResults \<ge> limit then
           (let minScore = (case nthOpt currentResults (limit - 1) of
                              Some r \<Rightarrow> score r | None \<Rightarrow> 0) in
            if minScore > 93 then Some (sampleMore rt query choices scorer limit processed hp)
            else None)
         else None)
      else None)"

lemma chunkSizeOf_pos: "0 < chunkSizeOf len"
  by (simp add: chunkSizeOf_def)

function chunkLoop :: "runtime \<Rightarrow> string \<Rightarrow> string list \<Rightarrow> ScorerFunction \<Rightarrow> nat \<Rightarrow> nat \<Rightarrow> nat
    \<Rightarrow> MinHeap \<times> nat \<Rightarrow> error + ExtractResult list" where
  "chunkLoop rt query choices scorer limit start processed st =
     (if start < length choices then
        (case forLoop [start..<min (start + chunkSizeOf (length choices)) (length choices)]
                (scanStep rt True query choices scorer limit) st of
           Throw e \<Rightarrow> Inl e
         | Return r \<Rightarrow> Inr r
         | Next st' \<Rightarrow>
            (case afterChunk rt query choices scorer limit
                    (processed + (min (start + chunkSizeOf (length choices)) (length choices) - start))
                    (fst st') of
               Some outcome \<Rightarrow> outcome
             | None \<Rightarrow>
                 chunkLoop rt query choices scorer limit (start + chunkSizeOf (length choices))
                   (processed + (min (start + chunkSizeOf (length choices)) (length choices) - start))
                   st'))
      else Inr (take limit (getResults rt (fst st))))"
  by pat_completeness auto
termination
proof (relation "measure (\<lambda>(rt, query, choices, scorer, limit, start, processed, st).
      length choices - start)", goal_cases)
  case 1
  show ?case by simp
next
  case (2 rt query choices scorer limit start)
  with chunkSizeOf_pos [of "length choices"] show ?case by simp
qed

declare chunkLoop.simps [simp del]

definition extractChunked :: "runtime \<Rightarrow> string \<Rightarrow> string list \<Rightarrow> ScorerFunction \<Rightarrow> nat
    \<Rightarrow> error + ExtractResult list" where
  "extractChunked rt query choices scorer limit =
     chunkLoop rt query choices scorer limit 0 0 (newMinHeap limit, 0)"

text \<open>
  The function \<^verbatim>\<open>extract\<close> of the source; it is \<open>extractTop\<close> here, the source's name
  being a reserved word. \<open>limit\<close> is an integer of any sign. Once it has passed the two
  guards and the clamp it lies between 1 and the number of choices.
\<close>

definition extractTop :: "runtime \<Rightarrow> string \<Rightarrow> string list \<Rightarrow> ScorerFunction \<Rightarrow> int
    \<Rightarrow> error + ExtractResult list" where
  "extractTop rt query choices scorer limit0 =
     (if length choices = 0 then Inr []
      else if limit0 \<le> 0 then Inr []
      else
        let limit = (if limit0 > int (length choices) then length choices else nat limit0);
            len = length choices in
        if len \<le> limit * 2 then
          bindE (foldE (scoreInto query choices scorer) [0..<len] [])
            (\<lambda>results. Inr (take limit (sortWith (arraySort rt) (compareResults rt) results)))
        else if len > 8000 then extractChunked rt query choices scorer limit
        else
          (case forLoop [0..<len] (scanStep rt False query choices scorer limit) (newMinHeap limit, 0) of
             Throw e \<Rightarrow> Inl e
           | Return r \<Rightarrow> Inr r
           | Next st \<Rightarrow> Inr (take limit (getResults rt (fst st)))))"

section \<open>process/extractOne.ts\<close>

text \<open>
  The running best is the pair of \<open>bestChoice\<close> and \<open>bestScore\<close>. Every loop of the file
  has the same body: score the candidate at an index, keep it if it is strictly better, and
  leave the function at once with a score of 100. (In the short scan the code says
  \<^verbatim>\<open>break\<close> and returns the same record right after the loop.)
\<close>

definition considerChoice :: "string \<Rightarrow> string list \<Rightarrow> ScorerFunction \<Rightarrow> string \<times> real \<Rightarrow> nat
    \<Rightarrow> (ExtractResult, string \<times> real) flow" where
  "considerChoice query choices scorer best idx =
     (case best of (bestChoice, bestScore) \<Rightarrow>
      case nthOpt choices idx of
        None \<Rightarrow> Next (bestChoice, bestScore)
      | Some c \<Rightarrow>
         (case scorer query c of
            Inl e \<Rightarrow> Throw e
          | Inr sc \<Rightarrow>
              if sc > bestScore then
                (if sc = 100 then Return \<lparr>choice = c, score = sc\<rparr> else Next (c, sc))
              else Next (bestChoice, bestScore)))"

definition bestResult :: "string \<times> real \<Rightarrow> ExtractResult" where
  "bestResult best = \<lparr>choice = fst best, score = snd best\<rparr>"

text \<open>
  The body of the verification pass, which draws its index from \<^verbatim>\<open>Math.random()\<close>. The
  state carries \<open>foundBetter\<close>.
\<close>

definition verifyStep :: "runtime \<Rightarrow> string \<Rightarrow> string list \<Rightarrow> ScorerFunction
    \<Rightarrow> (string \<times> real) \<times> bool \<Rightarrow> nat \<Rightarrow> (ExtractResult, (string \<times> real) \<times> bool) flow" where
  "verifyStep rt query choices scorer st v =
     (case st of (best, foundBetter) \<Rightarrow>
      let randomIdx = mathFloor (timesDouble (length choices) (mathRandom rt v)) in
      case nthOpt choices randomIdx of
        None \<Rightarrow> Next (best, foundBetter)
      | Some c \<Rightarrow>
         (case scorer query c of
            Inl e \<Rightarrow> Throw e
          | Inr sc \<Rightarrow>
              if sc > snd best then
                (if sc = 100 then Return \<lparr>choice = c, score = sc\<rparr> else Next ((c, sc), True))
              else Next (best, foundBetter)))"

text \<open>The strategic positions.\<close>

definition sampleIndices :: "nat \<Rightarrow> nat list" where
  "sampleIndices len =
     filter (\<lambda>idx. idx > 0 \<and> idx < len)
       [0,
        mathFloor (timesDouble len dbl_0_1),
        mathFloor (timesDouble len dbl_0_2),
        mathFloor (timesDouble len dbl_0_3),
        mathFloor (timesDouble len dbl_0_5),
        mathFloor (timesDouble len dbl_0_7),
        mathFloor (timesDouble len dbl_0_9),
        len - 1]"

definition additionalSamples :: "nat \<Rightarrow> nat" where
  "additionalSamples len =
     (if len > 200000 then 50 else if len > 100000 then 30 else if len > 50000 then 20 else 15)"

definition evenIndices :: "nat \<Rightarrow> nat list" where
  "evenIndices len =
     map (\<lambda>s. ((len - 1) * (s + 1)) div (additionalSamples len + 1)) [0..<additionalSamples len]"

definition oneChunkSize :: "nat \<Rightarrow> nat" where
  "oneChunkSize len = (if len > 200000 then 20000 else if len > 100000 then 15000 else 10000)"

definition earlyExitThreshold :: "nat \<Rightarrow> real" where
  "earlyExitThreshold len =
     (if len > 100000 then timesDouble len dbl_0_1 else timesDouble len dbl_0_15)"

text \<open>
  The strategic sample that ends a scan: \<open>sampleCount\<close> positions, \<open>step\<close> apart, from
  \<open>processed\<close> on, up to the first that is past the end.
\<close>

definition strategicIndices :: "nat \<Rightarrow> nat \<Rightarrow> nat list" where
  "strategicIndices len processed =
     (let sampleCount = min 200 ((len - processed) div 50);
          step = (len - processed) div sampleCount in
      takeWhile (\<lambda>idx. idx < len) (map (\<lambda>s. processed + s * step) [0..<sampleCount]))"

lemma oneChunkSize_pos: "0 < oneChunkSize len"
  by (simp add: oneChunkSize_def)

function scanChunks :: "string \<Rightarrow> string list \<Rightarrow> ScorerFunction \<Rightarrow> nat \<Rightarrow> nat \<Rightarrow> string \<times> real
    \<Rightarrow> error + ExtractResult" where
  "scanChunks query choices scorer start processed best =
     (if start < length choices then
        (case forLoop [start..<min (start + oneChunkSize (length choices)) (length choices)]
                (considerChoice query choices scorer) best of
           Throw e \<Rightarrow> Inl e
         | Return r \<Rightarrow> Inr r
         | Next best' \<Rightarrow>
             if real (processed + (min (start + oneChunkSize (length choices)) (length choices) - start))
                  > earlyExitThreshold (length choices)
                \<and> snd best' > 97
             then
               (case forLoop
                       (strategicIndices (length choices)
                          (processed + (min (start + oneChunkSize (length choices)) (length choices) - start)))
                       (considerChoice query choices scorer) best' of
                  Throw e \<Rightarrow> Inl e
                | Return r \<Rightarrow> Inr r
                | Next best'' \<Rightarrow> Inr (bestResult best''))
             else
               scanChunks query choices scorer (start + oneChunkSize (length choices))
                 (processed + (min (start + oneChunkSize (length choices)) (length choices) - start))
                 best')
      else Inr (bestResult best))"
  by pat_completeness auto
termination
proof (relation "measure (\<lambda>(query, choices, scorer, start, processed, best). length choices - start)",
    goal_cases)
  case 1
  show ?case by simp
next
  case (2 query choices scorer start)
  with oneChunkSize_pos [of "length choices"] show ?case by simp
qed

declare scanChunks.simps [simp del]

text \<open>
  The two sampling loops that open \<^verbatim>\<open>extractOneChunked\<close>: the evenly spaced positions,
  then the strategic ones.
\<close>

definition strategicSampling :: "string \<Rightarrow> string list \<Rightarrow> ScorerFunction \<Rightarrow> string \<times> real
    \<Rightarrow> (ExtractResult, string \<times> real) flow" where
  "strategicSampling query choices scorer best =
     (case forLoop (evenIndices (length choices)) (considerChoice query choices scorer) best of
        Throw e \<Rightarrow> Throw e
      | Return r \<Rightarrow> Return r
      | Next best1 \<Rightarrow>
          forLoop (sampleIndices (length choices)) (considerChoice query choices scorer) best1)"

text \<open>The verification pass: 100 candidates at random indices.\<close>

definition verification :: "runtime \<Rightarrow> string \<Rightarrow> string list \<Rightarrow> ScorerFunction \<Rightarrow> string \<times> real
    \<Rightarrow> (ExtractResult, string \<times> real) flow" where
  "verification rt query choices scorer best =
     (case forLoop [0..<100] (verifyStep rt query choices scorer) (best, False) of
        Throw e \<Rightarrow> Throw e
      | Return r \<Rightarrow> Return r
      | Next (best', foundBetter) \<Rightarrow>
          if \<not> foundBetter then Return (bestResult best') else Next best')"

text \<open>
  The sampling that precedes the scan: it throws, or returns the result of the whole
  function, or hands the best so far on to the scan.
\<close>

definition upfrontSampling :: "runtime \<Rightarrow> string \<Rightarrow> string list \<Rightarrow> ScorerFunction \<Rightarrow> string \<times> real
    \<Rightarrow> (ExtractResult, string \<times> real) flow" where
  "upfrontSampling rt query choices scorer best =
     (let len = length choices in
      if len > 20000 then
        (case strategicSampling query choices scorer best of
           Throw e \<Rightarrow> Throw e
         | Return r \<Rightarrow> Return r
         | Next best' \<Rightarrow>
             if snd best' > 98 \<and> len > 100000 then verification rt query choices scorer best'
             else Next best')
      else Next best)"

definition extractOneChunked :: "runtime \<Rightarrow> string \<Rightarrow> string list \<Rightarrow> ScorerFunction \<Rightarrow> string \<Rightarrow> real
    \<Rightarrow> error + ExtractResult" where
  "extractOneChunked rt query choices scorer initialChoice initialScore =
     (case upfrontSampling rt query choices scorer (initialChoice, initialScore) of
        Throw e \<Rightarrow> Inl e
      | Return r \<Rightarrow> Inr r
      | Next best \<Rightarrow> scanChunks query choices scorer 1 1 best)"

definition extractOne :: "runtime \<Rightarrow> string \<Rightarrow> string list \<Rightarrow> ScorerFunction
    \<Rightarrow> error + ExtractResult option" where
  "extractOne rt query choices scorer =
     (if length choices = 0 then Inr None
      else
        case nthOpt choices 0 of
          None \<Rightarrow> Inr None
        | Some firstChoice \<Rightarrow>
            bindE (scorer query firstChoice) (\<lambda>bestScore.
              if bestScore = 100 then Inr (Some \<lparr>choice = firstChoice, score = bestScore\<rparr>)
              else if length choices > 20000 then
                bindE (extractOneChunked rt query choices scorer firstChoice bestScore)
                  (\<lambda>r. Inr (Some r))
              else
                (case forLoop [1..<length choices] (considerChoice query choices scorer)
                        (firstChoice, bestScore) of
                   Throw e \<Rightarrow> Inl e
                 | Return r \<Rightarrow> Inr (Some r)
                 | Next best \<Rightarrow> Inr (Some (bestResult best)))))"

section \<open>Edit distance as a specification\<close>

text \<open>
  One edit inserts, deletes or replaces a single character anywhere in the string.
  \<open>editsTo n a b\<close> says that \<open>n\<close> edits, applied one after the other, turn \<open>a\<close> into \<open>b\<close>.
\<close>

inductive edit1 :: "'a list \<Rightarrow> 'a list \<Rightarrow> bool" where
  ins: "edit1 v (c # v)"
| del: "edit1 (c # v) v"
| sub: "edit1 (c # v) (d # v)"
| skip: "edit1 a b \<Longrightarrow> edit1 (x # a) (x # b)"

inductive editsTo :: "nat \<Rightarrow> 'a list \<Rightarrow> 'a list \<Rightarrow> bool" where
  same: "editsTo 0 a a"
| step: "edit1 a b \<Longrightarrow> editsTo n b c \<Longrightarrow> editsTo (Suc n) a c"

text \<open>The textbook recurrence, used as the bridge between the code and \<open>editsTo\<close>.\<close>

fun editDistance :: "'a list \<Rightarrow> 'a list \<Rightarrow> nat" where
  "editDistance [] b = length b"
| "editDistance (x # a) [] = Suc (length a)"
| "editDistance (x # a) (y # b) =
     min (Suc (editDistance (x # a) b))
       (min (Suc (editDistance a (y # b))) ((if x = y then 0 else 1) + editDistance a b))"

section \<open>Auxiliary definitions\<close>

subsection \<open>Values and invariants used in the proofs\<close>

text \<open>
  After \<open>i\<close> passes of the outer loop the row \<open>prevRow\<close> holds, at index \<open>j\<close>, the
  distance between the first \<open>i\<close> characters of \<open>s1\<close> and the first \<open>j\<close> characters of \<open>s2\<close>.
\<close>

definition specRow :: "string \<Rightarrow> string \<Rightarrow> nat \<Rightarrow> row" where
  "specRow a b i = map (\<lambda>j. Some (editDistance (take i a) (take j b))) [0..<length b + 1]"

text \<open>The value of \<open>levenshteinRatio\<close>, from the recurrence.\<close>

definition ratioValue :: "string \<Rightarrow> string \<Rightarrow> real" where
  "ratioValue a b =
     (if a = b then 100
      else if editDistance a b \<ge> max (length a) (length b) then 0
      else ((real (max (length a) (length b)) - real (editDistance a b))
              / real (max (length a) (length b))) * 100)"

text \<open>The value of \<open>partialRatio\<close> in terms of the shorter and the longer argument.\<close>

definition partialValue :: "string \<Rightarrow> string \<Rightarrow> real" where
  "partialValue shorter longer =
     (if shorter = [] \<or> longer = [] then 0
      else if sublist shorter longer then 100
      else Max ((\<lambda>i. ratioValue shorter (take (length shorter) (drop i longer)))
                  ` {0..length longer - length shorter}))"

text \<open>The value of \<open>tokenSetRatio\<close> on two token sets, both non-empty.\<close>

definition tokenSetValue :: "string list \<Rightarrow> string list \<Rightarrow> real" where
  "tokenSetValue set1 set2 =
     (let inter = filter (\<lambda>t. t \<in> set set2) set1;
          c0 = joinSpace (sort inter);
          c1 = joinSpace (sort (inter @ filter (\<lambda>t. t \<notin> set set2) set1));
          c2 = joinSpace (sort (inter @ filter (\<lambda>t. t \<notin> set set1) set2)) in
      if inter = [] then 0
      else max (if c0 = [] then 0 else ratioValue c0 c1)
             (max (if c0 = [] then 0 else ratioValue c0 c2) (ratioValue c1 c2)))"

text \<open>Scores that never increase along the sequence.\<close>

definition descendingScores :: "ExtractResult list \<Rightarrow> bool" where
  "descendingScores rs = sorted_wrt (\<lambda>a b. score b \<le> score a) rs"

text \<open>
  The state of a scan after \<open>n\<close> candidates were pushed into a heap of capacity \<open>limit\<close>.
\<close>

definition heapAfter :: "nat \<Rightarrow> nat \<Rightarrow> MinHeap \<Rightarrow> bool" where
  "heapAfter limit n hp = (heapSize hp = limit \<and> length (heap hp) = min limit n)"

text \<open>
  The part of the contract of \<^verbatim>\<open>sort\<close> that concerns an array of two elements: if the
  comparator is a consistent order on the two and puts the first before the second, the
  array stays as it is.
\<close>

definition sortsPairs :: "'a sortFunction \<Rightarrow> bool" where
  "sortsPairs srt =
     (\<forall>cmp x y. cmp x x = 0 \<and> cmp y y = 0 \<and> cmp x y < 0 \<and> 0 < cmp y x
        \<longrightarrow> sortWith srt cmp [x, y] = [x, y])"

text \<open>
  The verification pass of \<open>extractOne\<close> is reached: there are more than 100000 candidates,
  the first does not score 100, and the two sampling loops run to their end, without an
  exception and without a return, on a best score above 98.
\<close>

definition reachesVerification :: "string \<Rightarrow> string list \<Rightarrow> ScorerFunction \<Rightarrow> bool" where
  "reachesVerification query choices scorer =
     (case nthOpt choices 0 of
        None \<Rightarrow> False
      | Some firstChoice \<Rightarrow>
         (case scorer query firstChoice of
            Inl e \<Rightarrow> False
          | Inr bestScore \<Rightarrow>
              bestScore \<noteq> 100 \<and> length choices > 100000 \<and>
              (case strategicSampling query choices scorer (firstChoice, bestScore) of
                 Throw e \<Rightarrow> False
               | Return r \<Rightarrow> False
               | Next best \<Rightarrow> snd best > 98)))"

text \<open>The scorer returns a number on the query and every candidate.\<close>

definition scoresAll :: "ScorerFunction \<Rightarrow> string \<Rightarrow> string list \<Rightarrow> bool" where
  "scoresAll scorer query choices = (\<forall>c\<in>set choices. \<exists>v. scorer query c = Inr v)"

text \<open>The scorer returns a number, at most 100, on the query and every candidate.\<close>

definition scoresUpTo100 :: "ScorerFunction \<Rightarrow> string \<Rightarrow> string list \<Rightarrow> bool" where
  "scoresUpTo100 scorer query choices = (\<forall>c\<in>set choices. \<exists>v. scorer query c = Inr v \<and> v \<le> 100)"

subsection \<open>Concrete runtimes, scorers and inputs\<close>

text \<open>
  A sort and a collation for the concrete runs: the stable insertion sort, and the order of
  the strings by their code units. On the lower-case letters of the runs below the latter
  agrees with the collation of every locale.
\<close>

fun insertSorted :: "('a \<Rightarrow> 'a \<Rightarrow> real) \<Rightarrow> 'a \<Rightarrow> 'a list \<Rightarrow> 'a list" where
  "insertSorted cmp x [] = [x]"
| "insertSorted cmp x (y # ys) =
     (if cmp x y \<le> 0 then x # y # ys else y # insertSorted cmp x ys)"

definition sortBy :: "('a \<Rightarrow> 'a \<Rightarrow> real) \<Rightarrow> 'a list \<Rightarrow> 'a list" where
  "sortBy cmp xs = foldr (insertSorted cmp) xs []"

definition insertionSort :: "'a sortFunction" where
  "insertionSort = SortFunction sortBy"

definition codeUnitOrder :: "string \<Rightarrow> string \<Rightarrow> int" where
  "codeUnitOrder a b = (if a < b then - 1 else if a = b then 0 else 1)"

text \<open>The runtime with these two, in which \<^verbatim>\<open>Math.random()\<close> returns the numbers \<open>draws\<close>.\<close>

definition runtimeDrawing :: "(nat \<Rightarrow> double) \<Rightarrow> runtime" where
  "runtimeDrawing draws =
     \<lparr>arraySort = insertionSort, localeCompare = codeUnitOrder, mathRandom = draws\<rparr>"

text \<open>A scorer that returns 100 on equal strings, and 99 on all others.\<close>

definition exactOr99 :: ScorerFunction where
  "exactOr99 a b = Inr (if a = b then 100 else 99)"

text \<open>A scorer that returns 100 on equal strings, and 50 on all others.\<close>

definition exactOr50 :: ScorerFunction where
  "exactOr50 a b = Inr (if a = b then 100 else 50)"

text \<open>The scorer of the test suite that always throws.\<close>

definition errorScorer :: ScorerFunction where
  "errorScorer s1 s2 = Inl (Error ''Scorer error'')"

text \<open>A scorer under which two candidates are within 0.001 of each other.\<close>

definition nearTie :: ScorerFunction where
  "nearTie query c = Inr (if c = ''a'' then 50 else 50.0005)"

text \<open>20001 candidates; the only one equal to the query \<open>''a''\<close> is at index 19999.\<close>

definition hiddenMatch :: "string list" where
  "hiddenMatch = replicate 19999 ''b'' @ [''a'', ''b'']"

text \<open>
  Three sequences of values of \<^verbatim>\<open>Math.random()\<close>: always 0; always \<open>1 / 2 ^ 16\<close>; and 0 in
  the first 100 calls, \<open>1 / 2\<close> from then on.
\<close>

definition drawsZero :: "nat \<Rightarrow> double" where
  "drawsZero v = \<lparr>significand = 0, binaryScale = 0\<rparr>"

definition drawsLow :: "nat \<Rightarrow> double" where
  "drawsLow v = \<lparr>significand = 1, binaryScale = 16\<rparr>"

definition drawsLate :: "nat \<Rightarrow> double" where
  "drawsLate v = (if v < 100 then \<lparr>significand = 0, binaryScale = 0\<rparr>
                  else \<lparr>significand = 1, binaryScale = 1\<rparr>)"

text \<open>100001 candidates; the only one equal to the query \<open>''a''\<close> is at index 1.\<close>

definition drawnMatch :: "string list" where
  "drawnMatch = ''b'' # ''a'' # replicate 99999 ''b''"

section \<open>Facts about the edit distance\<close>

subsection \<open>Basic facts about the recurrence\<close>

lemma editDistance_Nil2 [simp]: "editDistance a [] = length a"
  by (cases a) simp_all

lemma editDistance_refl [simp]: "editDistance a a = 0"
  by (induction a) simp_all

lemma editDistance_sym: "editDistance a b = editDistance b a"
  by (induction a b rule: editDistance.induct) (simp_all add: min.commute min.left_commute)

lemma editDistance_ins: "editDistance a (y # b) \<le> Suc (editDistance a b)"
  by (cases a) simp_all

lemma editDistance_del: "editDistance (x # a) b \<le> Suc (editDistance a b)"
  by (cases b) simp_all

lemma editDistance_skip: "editDistance (x # a) (x # b) \<le> editDistance a b"
  by simp

lemma editDistance_sub: "editDistance (x # a) (y # b) \<le> Suc (editDistance a b)"
  by (auto simp: min_le_iff_disj)

subsection \<open>One edit changes the recurrence by at most one\<close>

lemma length_edit1: "edit1 a b \<Longrightarrow> length b \<le> Suc (length a)"
  by (induction rule: edit1.induct) simp_all

lemma edit1_sym: "edit1 a b \<Longrightarrow> edit1 b a"
  by (induction rule: edit1.induct) (auto intro: edit1.intros)

lemma editDistance_del_head: "editDistance v b \<le> Suc (editDistance (c # v) b)"
proof (induction b)
  case Nil
  show ?case by simp
next
  case (Cons y b)
  have "editDistance v (y # b) \<le> Suc (editDistance v b)"
    by (rule editDistance_ins)
  with Cons show ?case
    by (auto simp: min_def)
qed

lemma editDistance_sub_head: "editDistance (d # v) b \<le> Suc (editDistance (c # v) b)"
proof (induction b)
  case Nil
  show ?case by simp
next
  case (Cons y b)
  have "editDistance (d # v) (y # b) \<le> Suc (editDistance (d # v) b)"
    by (rule editDistance_ins)
  moreover have "editDistance (d # v) (y # b) \<le> Suc (editDistance v (y # b))"
    by (rule editDistance_del)
  moreover have "editDistance (d # v) (y # b) \<le> Suc (editDistance v b)"
    by (rule editDistance_sub)
  ultimately show ?case using Cons
    by (auto simp: min_def)
qed

lemma editDistance_edit1: "edit1 a a' \<Longrightarrow> editDistance a' b \<le> Suc (editDistance a b)"
proof (induction arbitrary: b rule: edit1.induct)
  case (ins v c)
  show ?case by (rule editDistance_del)
next
  case (del c v)
  show ?case by (rule editDistance_del_head)
next
  case (sub c v d)
  show ?case by (rule editDistance_sub_head)
next
  case (skip a a' x)
  show ?case
  proof (induction b)
    case Nil
    from skip.IH [of "[]"] show ?case by simp
  next
    case (Cons y b)
    have 1: "editDistance (x # a') (y # b) \<le> Suc (editDistance (x # a') b)"
      by (rule editDistance_ins)
    have 2: "editDistance (x # a') (y # b) \<le> Suc (editDistance a' (y # b))"
      by (rule editDistance_del)
    have 3: "editDistance (x # a') (y # b) \<le> (if x = y then 0 else 1) + editDistance a' b"
      by simp
    from 1 2 3 Cons skip.IH [of "y # b"] skip.IH [of b] show ?case
      by (auto simp: min_def split: if_splits)
  qed
qed

subsection \<open>The recurrence is the least number of edits\<close>

lemma editsTo_lower: "editsTo n a b \<Longrightarrow> editDistance a b \<le> n"
proof (induction rule: editsTo.induct)
  case (same a)
  show ?case by simp
next
  case (step a b n c)
  from step.hyps(1) have "edit1 b a" by (rule edit1_sym)
  then have "editDistance a c \<le> Suc (editDistance b c)"
    by (rule editDistance_edit1)
  with step.IH show ?case by simp
qed

lemma editsTo_skip: "editsTo n a b \<Longrightarrow> editsTo n (x # a) (x # b)"
  by (induction rule: editsTo.induct) (auto intro: editsTo.intros edit1.intros)

lemma editsTo_snoc1: "editsTo n a b \<Longrightarrow> edit1 b c \<Longrightarrow> editsTo (Suc n) a c"
  by (induction rule: editsTo.induct) (auto intro: editsTo.intros)

lemma editsTo_inserts: "editsTo (length b) [] b"
proof (induction b)
  case Nil
  show ?case by (simp add: editsTo.same)
next
  case (Cons y b)
  from Cons edit1.ins [of b y] show ?case
    by (simp add: editsTo_snoc1)
qed

lemma editsTo_deletes: "editsTo (length a) a []"
proof (induction a)
  case Nil
  show ?case by (simp add: editsTo.same)
next
  case (Cons x a)
  from edit1.del [of x a] Cons show ?case
    by (simp add: editsTo.step)
qed

lemma editsTo_editDistance: "editsTo (editDistance a b) a b"
proof (induction a b rule: editDistance.induct)
  case (1 b)
  show ?case by (simp add: editsTo_inserts)
next
  case (2 x a)
  from editsTo_deletes [of "x # a"] show ?case by simp
next
  case (3 x a y b)
  let ?i = "Suc (editDistance (x # a) b)"
  let ?d = "Suc (editDistance a (y # b))"
  let ?s = "(if x = y then 0 else 1) + editDistance a b"
  have i: "editsTo ?i (x # a) (y # b)"
    using "3.IH"(1) edit1.ins [of b y] by (rule editsTo_snoc1)
  have d: "editsTo ?d (x # a) (y # b)"
    using edit1.del [of x a] "3.IH"(2) by (rule editsTo.step)
  have s: "editsTo ?s (x # a) (y # b)"
  proof (cases "x = y")
    case True
    with editsTo_skip [OF "3.IH"(3), of x] show ?thesis by simp
  next
    case False
    from editsTo_skip [OF "3.IH"(3), of x] edit1.sub [of x b y]
    have "editsTo (Suc (editDistance a b)) (x # a) (y # b)"
      by (rule editsTo_snoc1)
    with False show ?thesis by simp
  qed
  have "editDistance (x # a) (y # b) = ?i \<or> editDistance (x # a) (y # b) = ?d
      \<or> editDistance (x # a) (y # b) = ?s"
    by (simp add: min_def)
  with i d s show ?case by metis
qed

subsection \<open>The recurrence read from the right end of the strings\<close>

lemma edit1_ins_last: "edit1 w (w @ [c])"
  by (induction w) (auto intro: edit1.intros)

lemma edit1_del_last: "edit1 (w @ [c]) w"
  by (induction w) (auto intro: edit1.intros)

lemma edit1_sub_last: "edit1 (w @ [c]) (w @ [d])"
  by (induction w) (auto intro: edit1.intros)

lemma edit1_snoc: "edit1 a b \<Longrightarrow> edit1 (a @ [x]) (b @ [x])"
  by (induction rule: edit1.induct) (auto intro: edit1.intros)

lemma edit1_rev: "edit1 a b \<Longrightarrow> edit1 (rev a) (rev b)"
  by (induction rule: edit1.induct)
    (auto intro: edit1_ins_last edit1_del_last edit1_sub_last edit1_snoc)

lemma editsTo_rev: "editsTo n a b \<Longrightarrow> editsTo n (rev a) (rev b)"
  by (induction rule: editsTo.induct) (auto intro: editsTo.intros edit1_rev)

lemma editDistance_rev_le: "editDistance (rev a) (rev b) \<le> editDistance a b"
  by (rule editsTo_lower [OF editsTo_rev [OF editsTo_editDistance]])

lemma editDistance_rev: "editDistance (rev a) (rev b) = editDistance a b"
proof (rule antisym)
  show "editDistance (rev a) (rev b) \<le> editDistance a b"
    by (rule editDistance_rev_le)
  from editDistance_rev_le [of "rev a" "rev b"]
  show "editDistance a b \<le> editDistance (rev a) (rev b)"
    by simp
qed

lemma editDistance_snoc:
  "editDistance (a @ [x]) (b @ [y]) =
     min (Suc (editDistance (a @ [x]) b))
       (min (Suc (editDistance a (b @ [y]))) ((if x = y then 0 else 1) + editDistance a b))"
proof -
  have "editDistance (a @ [x]) (b @ [y]) = editDistance (rev (a @ [x])) (rev (b @ [y]))"
    by (simp only: editDistance_rev)
  also have "\<dots> =
     min (Suc (editDistance (rev (a @ [x])) (rev b)))
       (min (Suc (editDistance (rev a) (rev (b @ [y]))))
          ((if x = y then 0 else 1) + editDistance (rev a) (rev b)))"
    by simp
  finally show ?thesis
    by (simp only: editDistance_rev)
qed

subsection \<open>What the two rolling rows hold\<close>

lemma length_specRow [simp]: "length (specRow a b i) = length b + 1"
  by (simp add: specRow_def)

lemma nth_specRow:
  "j \<le> length b \<Longrightarrow> specRow a b i ! j = Some (editDistance (take i a) (take j b))"
  by (simp add: specRow_def nth_append less_Suc_eq_le del: upt_Suc)

lemma length_setAt: "j < length r \<Longrightarrow> length (setAt r j v) = length r"
  by (simp add: setAt_def)

lemma nth_setAt:
  "j < length r \<Longrightarrow> k < length r \<Longrightarrow> setAt r j v ! k = (if k = j then Some v else r ! k)"
  by (simp add: setAt_def)

lemma initRow_fold:
  "length r = m \<Longrightarrow> k \<le> m \<Longrightarrow>
   length (fold (\<lambda>j r. setAt r j j) [0..<k] r) = m \<and>
   (\<forall>j<k. fold (\<lambda>j r. setAt r j j) [0..<k] r ! j = Some j)"
proof (induction k)
  case 0
  then show ?case by simp
next
  case (Suc k)
  then show ?case
    by (auto simp: length_setAt nth_setAt less_Suc_eq)
qed

lemma initRow_spec: "initRow (length b) (newArray (length b + 1)) = specRow a b 0"
proof (rule nth_equalityI)
  show len: "length (initRow (length b) (newArray (length b + 1))) = length (specRow a b 0)"
    using initRow_fold [of "newArray (length b + 1)" "length b + 1" "length b + 1"]
    by (simp add: initRow_def newArray_def)
  fix j
  assume "j < length (initRow (length b) (newArray (length b + 1)))"
  with len have j: "j < length b + 1" by simp
  with initRow_fold [of "newArray (length b + 1)" "length b + 1" "length b + 1"]
  have "initRow (length b) (newArray (length b + 1)) ! j = Some j"
    by (simp add: initRow_def newArray_def)
  moreover from j have "specRow a b 0 ! j = Some j"
    by (simp add: nth_specRow)
  ultimately show "initRow (length b) (newArray (length b + 1)) ! j = specRow a b 0 ! j"
    by simp
qed

lemma foldE_append:
  "foldE f (xs @ ys) s = (case foldE f xs s of Inl e \<Rightarrow> Inl e | Inr s' \<Rightarrow> foldE f ys s')"
  by (induction xs arbitrary: s) (auto split: sum.splits)

lemma levCell_spec:
  assumes i: "0 < i" "i \<le> length a" and j: "0 < j" "j \<le> length b"
    and len: "length cur = length b + 1"
    and cur: "cur ! (j - 1) = Some (editDistance (take i a) (take (j - 1) b))"
  shows "levCell a b i (specRow a b (i - 1)) cur j =
           Inr (setAt cur j (editDistance (take i a) (take j b)))"
proof -
  from i have ta: "take i a = take (i - 1) a @ [a ! (i - 1)]"
    using take_Suc_conv_app_nth [of "i - 1" a] by simp
  from j have tb: "take j b = take (j - 1) b @ [b ! (j - 1)]"
    using take_Suc_conv_app_nth [of "j - 1" b] by simp
  have rec: "editDistance (take i a) (take j b) =
     min (Suc (editDistance (take i a) (take (j - 1) b)))
       (min (Suc (editDistance (take (i - 1) a) (take j b)))
          ((if a ! (i - 1) = b ! (j - 1) then 0 else 1)
             + editDistance (take (i - 1) a) (take (j - 1) b)))"
    using editDistance_snoc [of "take (i - 1) a" "a ! (i - 1)" "take (j - 1) b" "b ! (j - 1)"]
    by (simp only: ta [symmetric] tb [symmetric])
  from i j have "i - 1 < length a" and "j - 1 < length b"
    by arith+
  then have cost: "(nthOpt a (i - 1) = nthOpt b (j - 1)) = (a ! (i - 1) = b ! (j - 1))"
    by (simp add: nthOpt_def)
  from j len cur have r1: "rowAt cur (j - 1) = Some (editDistance (take i a) (take (j - 1) b))"
    by (simp add: rowAt_def)
  from j have r2: "rowAt (specRow a b (i - 1)) j = Some (editDistance (take (i - 1) a) (take j b))"
    by (simp add: rowAt_def nth_specRow)
  from j have r3: "rowAt (specRow a b (i - 1)) (j - 1)
      = Some (editDistance (take (i - 1) a) (take (j - 1) b))"
    by (simp add: rowAt_def nth_specRow)
  show ?thesis
    unfolding levCell_def r1 r2 r3 cost rec
    by (simp add: add.commute)
qed

lemma levInner_spec:
  assumes i: "0 < i" "i \<le> length a"
    and len: "length cur = length b + 1"
    and c0: "cur ! 0 = Some i"
    and k: "k \<le> length b"
  shows "\<exists>cur'. foldE (levCell a b i (specRow a b (i - 1))) [1..<Suc k] cur = Inr cur'
           \<and> length cur' = length b + 1
           \<and> (\<forall>j\<le>k. cur' ! j = Some (editDistance (take i a) (take j b)))"
  using k
proof (induction k)
  case 0
  from i c0 len show ?case by simp
next
  case (Suc k)
  then obtain cur' where run: "foldE (levCell a b i (specRow a b (i - 1))) [1..<Suc k] cur = Inr cur'"
    and len': "length cur' = length b + 1"
    and ent: "\<forall>j\<le>k. cur' ! j = Some (editDistance (take i a) (take j b))"
    by auto
  from ent have "cur' ! (Suc k - 1) = Some (editDistance (take i a) (take (Suc k - 1) b))"
    by simp
  with i Suc.prems len'
  have cell: "levCell a b i (specRow a b (i - 1)) cur' (Suc k) =
      Inr (setAt cur' (Suc k) (editDistance (take i a) (take (Suc k) b)))"
    by (intro levCell_spec) simp_all
  let ?cur = "setAt cur' (Suc k) (editDistance (take i a) (take (Suc k) b))"
  have "[1..<Suc (Suc k)] = [1..<Suc k] @ [Suc k]"
    by simp
  then have "foldE (levCell a b i (specRow a b (i - 1))) [1..<Suc (Suc k)] cur = Inr ?cur"
    by (simp only: foldE_append run cell sum.case foldE.simps)
  moreover from Suc.prems len' have "length ?cur = length b + 1"
    by (simp add: length_setAt)
  moreover have "\<forall>j\<le>Suc k. ?cur ! j = Some (editDistance (take i a) (take j b))"
  proof (intro allI impI)
    fix j
    assume "j \<le> Suc k"
    with Suc.prems len' ent show "?cur ! j = Some (editDistance (take i a) (take j b))"
      by (cases "j = Suc k") (simp_all add: nth_setAt)
  qed
  ultimately show ?case by blast
qed

lemma levRow_spec:
  assumes i: "i < length a" and len: "length c = length b + 1"
  shows "levRow a b (length b) (specRow a b i, c) (Suc i) = Inr (specRow a b (Suc i), specRow a b i)"
proof -
  let ?c0 = "setAt c 0 (Suc i)"
  from len have "length ?c0 = length b + 1" and "?c0 ! 0 = Some (Suc i)"
    by (simp_all add: length_setAt nth_setAt)
  with i levInner_spec [of "Suc i" a ?c0 b "length b"]
  obtain cur' where run: "foldE (levCell a b (Suc i) (specRow a b i)) [1..<Suc (length b)] ?c0 = Inr cur'"
    and len': "length cur' = length b + 1"
    and ent: "\<forall>j\<le>length b. cur' ! j = Some (editDistance (take (Suc i) a) (take j b))"
    by auto
  have "cur' = specRow a b (Suc i)"
  proof (rule nth_equalityI)
    show "length cur' = length (specRow a b (Suc i))"
      using len' by simp
    fix j
    assume "j < length cur'"
    with len' have "j \<le> length b" by simp
    with ent show "cur' ! j = specRow a b (Suc i) ! j"
      by (simp add: nth_specRow)
  qed
  with run show ?thesis
    by (simp add: levRow_def)
qed

lemma levOuter_spec:
  assumes len: "length c0 = length b + 1"
  shows "i \<le> length a \<Longrightarrow>
     \<exists>c. foldE (levRow a b (length b)) [1..<Suc i] (specRow a b 0, c0) = Inr (specRow a b i, c)
        \<and> length c = length b + 1"
proof (induction i)
  case 0
  from len show ?case by simp
next
  case (Suc i)
  then obtain c where run: "foldE (levRow a b (length b)) [1..<Suc i] (specRow a b 0, c0)
      = Inr (specRow a b i, c)" and lc: "length c = length b + 1"
    by auto
  from Suc.prems lc have row: "levRow a b (length b) (specRow a b i, c) (Suc i)
      = Inr (specRow a b (Suc i), specRow a b i)"
    by (intro levRow_spec) simp_all
  have "[1..<Suc (Suc i)] = [1..<Suc i] @ [Suc i]"
    by simp
  then have "foldE (levRow a b (length b)) [1..<Suc (Suc i)] (specRow a b 0, c0)
      = Inr (specRow a b (Suc i), specRow a b i)"
    by (simp only: foldE_append run row sum.case foldE.simps)
  then show ?case by simp
qed

lemma levDP_spec:
  "bindE (foldE (levRow a b (length b)) [1..<length a + 1]
            (initRow (length b) (newArray (length b + 1)), newArray (length b + 1)))
     (\<lambda>rows. case rows of (prevRow, currRow) \<Rightarrow>
        (case rowAt prevRow (length b) of
           None \<Rightarrow> Inl (Error ''Array index out of bounds'')
         | Some result \<Rightarrow> Inr result))
   = Inr (editDistance a b)"
proof -
  have "length (newArray (length b + 1)) = length b + 1"
    by (simp add: newArray_def)
  from levOuter_spec [OF this, of "length a" a]
  obtain c where "foldE (levRow a b (length b)) [1..<Suc (length a)]
      (specRow a b 0, newArray (length b + 1)) = Inr (specRow a b (length a), c)"
    by auto
  then have run: "foldE (levRow a b (length b)) [1..<length a + 1]
      (initRow (length b) (newArray (length b + 1)), newArray (length b + 1))
      = Inr (specRow a b (length a), c)"
    by (simp only: initRow_spec [of b a] Suc_eq_plus1)
  have "rowAt (specRow a b (length a)) (length b) = Some (editDistance a b)"
    by (simp add: rowAt_def nth_specRow)
  then show ?thesis
    by (simp only: run bindE.simps prod.case option.case)
qed

lemma levenshteinDistance_editDistance: "levenshteinDistance a b = Inr (editDistance a b)"
proof (cases "length a < length b")
  case False
  then show ?thesis
    using levDP_spec [of a b]
    by (subst levenshteinDistance.simps) (simp add: Let_def)
next
  case True
  then have "levenshteinDistance a b =
    (if a = [] then Inr (length b) else levenshteinDistance b a)"
    by (subst levenshteinDistance.simps) (auto simp: Let_def)
  moreover from True have "levenshteinDistance b a =
    (if a = [] then Inr (length b) else Inr (editDistance b a))"
    using levDP_spec [of b a]
    by (subst levenshteinDistance.simps) (auto simp: Let_def)
  ultimately show ?thesis
    by (simp add: editDistance_sym [of a b])
qed

section \<open>Claims about the edit distance\<close>

text \<open>
  Claim C4. For all strings \<open>a\<close> and \<open>b\<close>, \<open>levenshteinDistance a b\<close> returns the minimum
  number of single-character insertions, deletions and substitutions that transform \<open>a\<close>
  into \<open>b\<close>: that many edits do transform \<open>a\<close> into \<open>b\<close>, and no sequence of edits that
  does so is shorter. In particular the distance between the empty string and \<open>s\<close>, in
  either order, is the length of \<open>s\<close>, and the distance between \<open>s\<close> and itself is 0.
\<close>

theorem levenshteinDistance_minimum_edits:
  "(\<exists>n. levenshteinDistance a b = Inr n \<and> editsTo n a b \<and> (\<forall>m. editsTo m a b \<longrightarrow> n \<le> m))
   \<and> levenshteinDistance [] s = Inr (length s)
   \<and> levenshteinDistance s [] = Inr (length s)
   \<and> levenshteinDistance s s = Inr 0"
  by (simp add: levenshteinDistance_editDistance editsTo_editDistance editsTo_lower)

theorem levenshteinDistance_minimum_edits_witness:
  "editsTo 1 ''ab'' ''b'' \<and> levenshteinDistance ''ab'' ''b'' = Inr 1"
proof -
  have h: "editsTo 1 ''ab'' ''b''"
    using editsTo.step [OF edit1.del editsTo.same, of "CHR ''a''" "''b''"] by simp
  from levenshteinDistance_minimum_edits [of "''ab''" "''b''" "[]"]
  obtain n where n: "levenshteinDistance ''ab'' ''b'' = Inr n" "editsTo n ''ab'' ''b''"
    and least: "\<forall>m. editsTo m ''ab'' ''b'' \<longrightarrow> n \<le> m"
    by blast
  from least h have "n \<le> 1" by blast
  moreover have "n \<noteq> 0"
  proof
    assume "n = 0"
    with n(2) have "editsTo 0 ''ab'' ''b''" by simp
    then show False by cases
  qed
  ultimately have "n = 1" by simp
  with n h show ?thesis by simp
qed

text \<open>
  Claim C9. For all strings \<open>a\<close> and \<open>b\<close>, \<open>levenshteinDistance a b\<close> returns a number:
  none of the branches that throw \<^verbatim>\<open>Array index out of bounds\<close> (the guard on the three
  reads of the rows in the inner loop, the guard on the final cell) is ever taken.
\<close>

theorem levenshteinDistance_returns: "\<exists>n. levenshteinDistance a b = Inr n"
  by (simp add: levenshteinDistance_editDistance)

section \<open>Facts about the scorers\<close>

subsection \<open>The value of \<open>levenshteinRatio\<close>\<close>

lemma editDistance_eq_0: "editDistance a b = 0 \<Longrightarrow> a = b"
proof -
  assume z: "editDistance a b = 0"
  have "editsTo (editDistance a b) a b" by (rule editsTo_editDistance)
  with z have "editsTo 0 a b" by simp
  then show "a = b" by cases simp
qed

lemma levenshteinRatio_value: "levenshteinRatio a b = Inr (ratioValue a b)"
proof (cases "a = b")
  case True
  then show ?thesis by (simp add: levenshteinRatio_def ratioValue_def)
next
  case False
  then have "editDistance a b \<noteq> 0" using editDistance_eq_0 by blast
  moreover from False have "max (length a) (length b) \<noteq> 0" by auto
  ultimately show ?thesis using False
    by (simp add: levenshteinRatio_def ratioValue_def levenshteinDistance_editDistance Let_def)
qed

lemma ratioValue_sym: "ratioValue a b = ratioValue b a"
proof (cases "a = b")
  case True
  then show ?thesis by simp
next
  case False
  then have "b \<noteq> a" by blast
  with False show ?thesis
    by (simp add: ratioValue_def editDistance_sym [of a b] max.commute [of "length a"])
qed

lemma ratio_formula_bounds:
  fixes d m :: nat
  assumes "d < m"
  shows "0 \<le> ((real m - real d) / real m) * 100" and "((real m - real d) / real m) * 100 \<le> 100"
    and "0 < d \<Longrightarrow> ((real m - real d) / real m) * 100 < 100"
proof -
  define q where "q = (real m - real d) / real m"
  from assms have m: "0 < real m" and dm: "real d < real m" by simp_all
  then have q0: "0 \<le> q" by (simp add: q_def)
  from m have q1: "q \<le> 1" by (simp add: q_def divide_le_eq)
  from q0 have "0 \<le> q * 100" by simp
  then show "0 \<le> ((real m - real d) / real m) * 100"
    by (simp only: q_def)
  from q1 have "q * 100 \<le> 100" by simp
  then show "((real m - real d) / real m) * 100 \<le> 100"
    by (simp only: q_def)
  assume "0 < d"
  with m have "q < 1" by (simp add: q_def divide_less_eq)
  then have "q * 100 < 100" by simp
  then show "((real m - real d) / real m) * 100 < 100"
    by (simp only: q_def)
qed

lemma ratioValue_cases:
  "ratioValue a b = 100 \<and> a = b
   \<or> ratioValue a b = 0 \<and> a \<noteq> b
   \<or> a \<noteq> b \<and> editDistance a b < max (length a) (length b)
      \<and> ratioValue a b = ((real (max (length a) (length b)) - real (editDistance a b))
              / real (max (length a) (length b))) * 100"
proof (cases "a = b")
  case True
  then show ?thesis by (simp add: ratioValue_def)
next
  case ne: False
  show ?thesis
  proof (cases "max (length a) (length b) \<le> editDistance a b")
    case True
    with ne have "ratioValue a b = 0"
      unfolding ratioValue_def by (simp only: if_True if_False)
    with ne show ?thesis by blast
  next
    case False
    with ne have "ratioValue a b = ((real (max (length a) (length b)) - real (editDistance a b))
              / real (max (length a) (length b))) * 100"
      unfolding ratioValue_def by (simp only: if_False)
    moreover from False have "editDistance a b < max (length a) (length b)"
      by (simp only: not_le)
    ultimately show ?thesis using ne by blast
  qed
qed

lemma ratioValue_ge0: "0 \<le> ratioValue a b"
  using ratioValue_cases [of a b]
    ratio_formula_bounds(1) [of "editDistance a b" "max (length a) (length b)"]
  by auto

lemma ratioValue_le100: "ratioValue a b \<le> 100"
  using ratioValue_cases [of a b]
    ratio_formula_bounds(2) [of "editDistance a b" "max (length a) (length b)"]
  by auto

lemma ratioValue_eq100: "ratioValue a b = 100 \<longleftrightarrow> a = b"
proof
  assume r: "ratioValue a b = 100"
  show "a = b"
  proof (rule ccontr)
    assume ne: "a \<noteq> b"
    then have d: "0 < editDistance a b" using editDistance_eq_0 [of a b] by auto
    from ne r d ratioValue_cases [of a b]
      ratio_formula_bounds(3) [of "editDistance a b" "max (length a) (length b)"]
    show False by auto
  qed
next
  assume "a = b" then show "ratioValue a b = 100" by (simp add: ratioValue_def)
qed

subsection \<open>The value of \<open>partialRatio\<close>\<close>

lemma includesStr_sublist: "includesStr hay needle = sublist needle hay"
  by (induction hay) (simp_all add: sublist_Cons_right)

lemma prefix_imp_sublist_str: "startsWith hay needle \<or> endsWith hay needle \<Longrightarrow> includesStr hay needle"
  by (auto simp: startsWith_def endsWith_def includesStr_sublist)

lemma substring_window:
  "i + w \<le> length s \<Longrightarrow> substring s i (i + w) = take w (drop i s)"
  by (simp add: substring_def Let_def min_def max_def)

lemma fold_max_bound:
  fixes b :: real
  shows "\<forall>x\<in>set xs. x \<le> b \<Longrightarrow> fold max xs b = b"
  by (induction xs) (simp_all add: max_def)

lemma partialLoop_fold:
  "best \<le> 100 \<Longrightarrow>
   partialLoop shorter longer w is best =
     Inr (fold max (map (\<lambda>i. ratioValue shorter (substring longer i (i + w))) is) best)"
proof (induction "is" arbitrary: best)
  case Nil
  show ?case by simp
next
  case (Cons i "is")
  let ?f = "\<lambda>i. ratioValue shorter (substring longer i (i + w))"
  let ?best = "max best (?f i)"
  from Cons.prems have le: "?best \<le> 100"
    by (simp add: ratioValue_le100)
  show ?case
  proof (cases "?best = 100")
    case True
    have "fold max (map ?f is) 100 = 100"
      by (rule fold_max_bound) (simp add: ratioValue_le100)
    with True show ?thesis
      by (simp add: levenshteinRatio_value Let_def max.commute)
  next
    case False
    with Cons.IH [OF le] show ?thesis
      by (simp add: levenshteinRatio_value Let_def max.commute)
  qed
qed

lemma fold_max_Max:
  fixes f :: "nat \<Rightarrow> real"
  assumes "\<forall>i. 0 \<le> f i"
  shows "fold max (map f [0..<Suc n]) 0 = Max (f ` {0..n})"
proof -
  have "fold max (map f [0..<Suc n]) 0 = Max (set (0 # map f [0..<Suc n]))"
    by (simp only: Max.set_eq_fold)
  also have "set (0 # map f [0..<Suc n]) = insert 0 (f ` {0..n})"
    by (simp only: list.set set_map set_upt atLeastLessThanSuc_atLeastAtMost)
  also have "Max (insert 0 (f ` {0..n})) = max 0 (Max (f ` {0..n}))"
    by (rule Max_insert) simp_all
  also have "\<dots> = Max (f ` {0..n})"
  proof -
    have "f 0 \<le> Max (f ` {0..n})" by (rule Max_ge) simp_all
    with assms have "0 \<le> Max (f ` {0..n})" by (metis order_trans)
    then show ?thesis by simp
  qed
  finally show ?thesis .
qed

lemma partialRatio_value:
  "partialRatio a b =
     Inr (partialValue (if length a \<le> length b then a else b) (if length a \<le> length b then b else a))"
proof -
  define shorter where "shorter = (if length a \<le> length b then a else b)"
  define longer where "longer = (if length a \<le> length b then b else a)"
  have sl: "length shorter \<le> length longer"
    by (simp add: shorter_def longer_def)
  have l2: "(if length a > length b then a else b) = longer"
    by (simp add: longer_def)
  let ?f = "\<lambda>i. ratioValue shorter (substring longer i (i + length shorter))"
  let ?g = "\<lambda>i. ratioValue shorter (take (length shorter) (drop i longer))"
  have fg: "map ?f [0..<Suc (length longer - length shorter)]
      = map ?g [0..<Suc (length longer - length shorter)]"
  proof (intro map_cong refl)
    fix i
    assume "i \<in> set [0..<Suc (length longer - length shorter)]"
    with sl have "i + length shorter \<le> length longer" by auto
    then show "?f i = ?g i" by (simp only: substring_window)
  qed
  have loop: "partialLoop shorter longer (length shorter) [0..<length longer - length shorter + 1] 0
      = Inr (Max (?g ` {0..length longer - length shorter}))"
  proof -
    have "partialLoop shorter longer (length shorter) [0..<Suc (length longer - length shorter)] 0
      = Inr (fold max (map ?f [0..<Suc (length longer - length shorter)]) 0)"
      by (rule partialLoop_fold) simp
    also have "fold max (map ?f [0..<Suc (length longer - length shorter)]) 0
      = fold max (map ?g [0..<Suc (length longer - length shorter)]) 0"
      by (simp only: fg)
    also have "\<dots> = Max (?g ` {0..length longer - length shorter})"
      by (rule fold_max_Max) (simp add: ratioValue_ge0)
    finally show ?thesis by (simp only: Suc_eq_plus1)
  qed
  have "partialRatio a b = Inr (partialValue shorter longer)"
    unfolding partialRatio_def shorter_def [symmetric] l2 Let_def
    using prefix_imp_sublist_str [of longer shorter] loop
    by (auto simp: partialValue_def includesStr_sublist simp del: upt_Suc)
  then show ?thesis
    by (simp only: shorter_def longer_def)
qed

lemma Max_image_bounds:
  fixes f :: "nat \<Rightarrow> real"
  assumes "\<forall>i. lo \<le> f i \<and> f i \<le> hi"
  shows "lo \<le> Max (f ` {0..n}) \<and> Max (f ` {0..n}) \<le> hi"
proof
  have "f 0 \<le> Max (f ` {0..n})" by (rule Max_ge) simp_all
  with assms show "lo \<le> Max (f ` {0..n})" by (metis order_trans)
  show "Max (f ` {0..n}) \<le> hi"
    using assms by (subst Max_le_iff) auto
qed

lemma partialValue_bounds: "0 \<le> partialValue s l \<and> partialValue s l \<le> 100"
  using Max_image_bounds [of 0 "\<lambda>i. ratioValue s (take (length s) (drop i l))" 100 "length l - length s"]
  by (simp add: partialValue_def ratioValue_ge0 ratioValue_le100)

lemma sublist_same_length: "length a = length b \<Longrightarrow> sublist a b \<longleftrightarrow> a = b"
proof
  assume len: "length a = length b" and "sublist a b"
  then obtain ps ss where b: "b = ps @ a @ ss"
    unfolding sublist_def by blast
  have "length b = length ps + length a + length ss"
    by (simp add: b)
  with len have "ps = [] \<and> ss = []"
    by simp
  with b show "a = b" by simp
next
  assume "a = b"
  then show "sublist a b" by simp
qed

lemma partialValue_same_length:
  "length a = length b \<Longrightarrow> partialValue a b = partialValue b a"
proof -
  assume len: "length a = length b"
  have v: "partialValue a b = (if a = [] \<or> b = [] then 0 else if a = b then 100 else ratioValue a b)"
    if "length a = length b" for a b :: string
    using that by (simp add: partialValue_def sublist_same_length)
  have "ratioValue a b = ratioValue b a"
    by (rule ratioValue_sym)
  with v [OF len] v [of b a] len show ?thesis
    by auto
qed

lemma partialRatio_sym: "partialRatio a b = partialRatio b a"
proof (cases "length a = length b")
  case True
  then show ?thesis
    by (simp add: partialRatio_value partialValue_same_length)
next
  case False
  then show ?thesis
    by (auto simp: partialRatio_value)
qed

subsection \<open>The token scorers\<close>

lemma sortTokens_sort: "sortTokens ts = joinSpace (sort ts)"
proof -
  consider "length ts \<le> 1" | "length ts = 2" | "2 < length ts" by linarith
  then show ?thesis
  proof cases
    case 1
    then have "ts = [] \<or> (\<exists>t. ts = [t])"
      by (cases ts) auto
    then show ?thesis by (auto simp: sortTokens_def)
  next
    case 2
    then obtain t0 t1 where ts: "ts = [t0, t1]"
      by (cases ts; cases "tl ts") auto
    show ?thesis
      by (auto simp: ts sortTokens_def Let_def)
  next
    case 3
    then show ?thesis by (simp add: sortTokens_def)
  qed
qed

lemma sort_mset_cong: "mset xs = mset ys \<Longrightarrow> sort xs = sort (ys :: string list)"
  by (rule properties_for_sort) simp_all

lemma tokenSortRatio_value:
  "tokenSortRatio a b =
     Inr (if tokenize a = [] \<and> tokenize b = [] then 100
          else if tokenize a = [] \<or> tokenize b = [] then 0
          else ratioValue (sortTokens (tokenize a)) (sortTokens (tokenize b)))"
  by (simp add: tokenSortRatio_def Let_def levenshteinRatio_value ratioValue_eq100)

lemma tokenSortRatio_sym: "tokenSortRatio a b = tokenSortRatio b a"
  using ratioValue_sym [of "sortTokens (tokenize a)" "sortTokens (tokenize b)"]
  by (auto simp: tokenSortRatio_value)

lemma tokenSortRatio_bounds: "\<exists>r. tokenSortRatio a b = Inr r \<and> 0 \<le> r \<and> r \<le> 100"
  by (simp add: tokenSortRatio_value ratioValue_ge0 ratioValue_le100)

lemma setAdd_fold:
  "distinct s \<Longrightarrow>
   distinct (fold (\<lambda>t s. setAdd s t) ts s) \<and> set (fold (\<lambda>t s. setAdd s t) ts s) = set s \<union> set ts"
  by (induction ts arbitrary: s) (auto simp: setAdd_def)

lemma tokenSet_distinct: "distinct (tokenSet ts)"
  using setAdd_fold [of "[]" ts] by (simp add: tokenSet_def)

lemma tokenSet_set: "set (tokenSet ts) = set ts"
  using setAdd_fold [of "[]" ts] by (simp add: tokenSet_def)

lemma splitTokens_fold:
  "distinct xs \<Longrightarrow> set xs \<inter> (set i \<union> set o1) = {} \<Longrightarrow>
   fold (\<lambda>token st. case st of (intersection, only1) \<Rightarrow>
             if setHas set2 token then (setAdd intersection token, only1)
             else (intersection, setAdd only1 token)) xs (i, o1)
   = (i @ filter (\<lambda>t. t \<in> set set2) xs, o1 @ filter (\<lambda>t. t \<notin> set set2) xs)"
proof (induction xs arbitrary: i o1)
  case Nil
  show ?case by simp
next
  case (Cons x xs)
  show ?case
  proof (cases "x \<in> set set2")
    case True
    from Cons.prems have "distinct xs" "set xs \<inter> (set (i @ [x]) \<union> set o1) = {}" "x \<notin> set i"
      by auto
    with Cons.IH [of "i @ [x]" o1] True show ?thesis
      by (simp add: setHas_def setAdd_def)
  next
    case False
    from Cons.prems have "distinct xs" "set xs \<inter> (set i \<union> set (o1 @ [x])) = {}" "x \<notin> set o1"
      by auto
    with Cons.IH [of i "o1 @ [x]"] False show ?thesis
      by (simp add: setHas_def setAdd_def)
  qed
qed

lemma splitTokens_filter:
  "distinct set1 \<Longrightarrow>
   splitTokens set1 set2 = (filter (\<lambda>t. t \<in> set set2) set1, filter (\<lambda>t. t \<notin> set set2) set1)"
  using splitTokens_fold [of set1 "[]" "[]" set2] by (simp add: splitTokens_def)

lemma onlySecond_fold:
  "distinct xs \<Longrightarrow> set xs \<inter> set o2 = {} \<Longrightarrow>
   fold (\<lambda>token only2. if \<not> setHas set1 token then setAdd only2 token else only2) xs o2
   = o2 @ filter (\<lambda>t. t \<notin> set set1) xs"
proof (induction xs arbitrary: o2)
  case Nil
  show ?case by simp
next
  case (Cons x xs)
  from Cons.prems have "distinct xs" "set xs \<inter> set (o2 @ [x]) = {}" "set xs \<inter> set o2 = {}" "x \<notin> set o2"
    by auto
  with Cons.IH [of "o2 @ [x]"] Cons.IH [of o2] show ?case
    by (simp add: setHas_def setAdd_def)
qed

lemma onlySecond_filter:
  "distinct set2 \<Longrightarrow> onlySecond set1 set2 = filter (\<lambda>t. t \<notin> set set1) set2"
  using onlySecond_fold [of set2 "[]" set1] by (simp add: onlySecond_def)

lemma tokenSetRatio_value:
  "tokenSetRatio a b =
     Inr (if tokenize a = [] \<and> tokenize b = [] then 100
          else if tokenize a = [] \<or> tokenize b = [] then 0
          else tokenSetValue (tokenSet (tokenize a)) (tokenSet (tokenize b)))"
  by (simp add: tokenSetRatio_def Let_def splitTokens_filter onlySecond_filter tokenSet_distinct
      sortTokens_sort levenshteinRatio_value tokenSetValue_def)

lemma tokenSetValue_bounds: "0 \<le> tokenSetValue s t \<and> tokenSetValue s t \<le> 100"
  by (simp add: tokenSetValue_def Let_def ratioValue_ge0 ratioValue_le100 le_max_iff_disj)

lemma tokenSetRatio_bounds: "\<exists>r. tokenSetRatio a b = Inr r \<and> 0 \<le> r \<and> r \<le> 100"
  by (simp add: tokenSetRatio_value tokenSetValue_bounds)

lemma tokenSetValue_sym:
  assumes "distinct s" "distinct t"
  shows "tokenSetValue s t = tokenSetValue t s"
proof -
  let ?i = "filter (\<lambda>x. x \<in> set t) s" and ?j = "filter (\<lambda>x. x \<in> set s) t"
  let ?o1 = "filter (\<lambda>x. x \<notin> set t) s" and ?o2 = "filter (\<lambda>x. x \<notin> set s) t"
  from assms have "mset ?i = mset ?j"
    by (subst set_eq_iff_mset_eq_distinct [symmetric]) auto
  then have m: "mset ?i = mset ?j" "mset (?i @ ?o1) = mset (?j @ ?o1)"
    "mset (?i @ ?o2) = mset (?j @ ?o2)"
    by simp_all
  have e: "(?i = []) = (?j = [])"
    using m(1) by (metis mset_zero_iff)
  have s: "sort ?i = sort ?j" "sort (?i @ ?o1) = sort (?j @ ?o1)" "sort (?i @ ?o2) = sort (?j @ ?o2)"
    by (rule sort_mset_cong, rule m(1), rule sort_mset_cong, rule m(2), rule sort_mset_cong, rule m(3))
  have r: "ratioValue (joinSpace (sort (?j @ ?o1))) (joinSpace (sort (?j @ ?o2)))
      = ratioValue (joinSpace (sort (?j @ ?o2))) (joinSpace (sort (?j @ ?o1)))"
    by (rule ratioValue_sym)
  show ?thesis
    unfolding tokenSetValue_def Let_def s e r
    by (simp add: max.commute max.left_commute)
qed

lemma tokenSetRatio_sym: "tokenSetRatio a b = tokenSetRatio b a"
  using tokenSetValue_sym [of "tokenSet (tokenize a)" "tokenSet (tokenize b)"]
  by (auto simp: tokenSetRatio_value tokenSet_distinct)

subsection \<open>The weighted scorer\<close>

lemma levenshteinRatio_sym: "levenshteinRatio a b = levenshteinRatio b a"
  by (simp add: levenshteinRatio_value ratioValue_sym [of a b])

lemma partialRatio_bounds: "\<exists>p. partialRatio a b = Inr p \<and> 0 \<le> p \<and> p \<le> 100"
  by (simp add: partialRatio_value partialValue_bounds)

lemma lenRatio_min_max:
  "(if length a > length b then real (length b) / real (length a)
    else real (length a) / real (length b))
   = real (min (length a) (length b)) / real (max (length a) (length b))"
  by (simp add: min_def max_def)

lemma weightedRatio_components:
  assumes r: "levenshteinRatio a b = Inr r" and p: "partialRatio a b = Inr p"
    and ts: "tokenSortRatio a b = Inr ts" and tset: "tokenSetRatio a b = Inr tset"
    and ne: "a \<noteq> b"
  shows "weightedRatio a b =
     Inr (let lenRatio = real (min (length a) (length b)) / real (max (length a) (length b)) in
          if lenRatio > 0.8 then max r (max ts tset)
          else if lenRatio < 0.6 then max p (max (0.95 * ts) (0.95 * tset))
          else max r (max p (max ts tset)))"
proof -
  from r ne have r100: "r \<noteq> 100" "r \<le> 100"
    using ratioValue_eq100 [of a b] ratioValue_le100 [of a b] by (auto simp: levenshteinRatio_value)
  from p partialRatio_bounds [of a b] have p100: "p \<le> 100" by auto
  from ts tokenSortRatio_bounds [of a b] have ts100: "ts \<le> 100" by auto
  from tset tokenSetRatio_bounds [of a b] have tset100: "tset \<le> 100" by auto
  have m1: "ts = 100 \<Longrightarrow> max r (max ts tset) = 100"
    using r100 tset100 by simp
  have m2: "p = 100 \<Longrightarrow> max p (max (0.95 * ts) (0.95 * tset)) = 100"
    using ts100 tset100 by simp
  have m3: "p = 100 \<Longrightarrow> max r (max p (max ts tset)) = 100"
    using r100 ts100 tset100 by simp
  show ?thesis
    unfolding weightedRatio_def Let_def lenRatio_min_max r p ts tset bindE.simps
    using ne r100(1) m1 m2 m3 by (simp add: mult.commute)
qed

lemma weightedRatio_refl: "weightedRatio s s = Inr 100"
  by (simp add: weightedRatio_def Let_def)

lemma weightedRatio_sym: "weightedRatio a b = weightedRatio b a"
proof (cases "a = b")
  case True
  then show ?thesis by simp
next
  case False
  then have ne: "b \<noteq> a" by blast
  obtain r p ts tset where c: "levenshteinRatio a b = Inr r" "partialRatio a b = Inr p"
    "tokenSortRatio a b = Inr ts" "tokenSetRatio a b = Inr tset"
    using partialRatio_bounds [of a b] tokenSortRatio_bounds [of a b] tokenSetRatio_bounds [of a b]
    by (auto simp: levenshteinRatio_value)
  then have c': "levenshteinRatio b a = Inr r" "partialRatio b a = Inr p"
    "tokenSortRatio b a = Inr ts" "tokenSetRatio b a = Inr tset"
    by (simp_all only: levenshteinRatio_sym [of b a] partialRatio_sym [of b a]
        tokenSortRatio_sym [of b a] tokenSetRatio_sym [of b a])
  show ?thesis
    unfolding weightedRatio_components [OF c False] weightedRatio_components [OF c' ne]
    by (simp only: min.commute [of "length a"] max.commute [of "length a"])
qed

section \<open>Claims about the scorers\<close>

text \<open>
  Claim C5. Let \<open>r\<close>, \<open>p\<close>, \<open>ts\<close> and \<open>tset\<close> be the values of \<open>levenshteinRatio\<close>,
  \<open>partialRatio\<close>, \<open>tokenSortRatio\<close> and \<open>tokenSetRatio\<close> on \<open>a\<close> and \<open>b\<close> (all four
  return a value), and let \<open>lenRatio\<close> be the length of the shorter string over the length
  of the longer. When \<open>a \<noteq> b\<close>, \<open>weightedRatio a b\<close> is the maximum of \<open>r\<close>, \<open>ts\<close>, \<open>tset\<close> if
  \<open>lenRatio > 0.8\<close>; the maximum of \<open>p\<close>, \<open>0.95 * ts\<close>, \<open>0.95 * tset\<close> if \<open>lenRatio < 0.6\<close>;
  and the maximum of \<open>r\<close>, \<open>p\<close>, \<open>ts\<close>, \<open>tset\<close> otherwise: the early returns on a component
  equal to 100 agree with these maxima. And \<open>weightedRatio s s = 100\<close>.
\<close>

theorem weightedRatio_max_formula:
  "\<exists>r p ts tset.
     levenshteinRatio a b = Inr r \<and> partialRatio a b = Inr p
     \<and> tokenSortRatio a b = Inr ts \<and> tokenSetRatio a b = Inr tset
     \<and> (a \<noteq> b \<longrightarrow>
          weightedRatio a b =
            Inr (let lenRatio = real (min (length a) (length b)) / real (max (length a) (length b)) in
                 if lenRatio > 0.8 then max r (max ts tset)
                 else if lenRatio < 0.6 then max p (max (0.95 * ts) (0.95 * tset))
                 else max r (max p (max ts tset))))
     \<and> weightedRatio s s = Inr 100"
proof -
  obtain r p ts tset where c: "levenshteinRatio a b = Inr r" "partialRatio a b = Inr p"
    "tokenSortRatio a b = Inr ts" "tokenSetRatio a b = Inr tset"
    using partialRatio_bounds [of a b] tokenSortRatio_bounds [of a b] tokenSetRatio_bounds [of a b]
    by (auto simp: levenshteinRatio_value)
  with weightedRatio_components [OF c] weightedRatio_refl [of s] show ?thesis
    by blast
qed

theorem weightedRatio_max_formula_witness:
  "''ab'' \<noteq> ''b'' \<and> weightedRatio ''ab'' ''b'' = Inr 100"
proof -
  from weightedRatio_max_formula [of "''ab''" "''b''" "[]"]
  obtain r p ts tset where p: "partialRatio ''ab'' ''b'' = Inr p"
    and ts: "tokenSortRatio ''ab'' ''b'' = Inr ts" and tset: "tokenSetRatio ''ab'' ''b'' = Inr tset"
    and w: "weightedRatio ''ab'' ''b'' = Inr (max p (max (0.95 * ts) (0.95 * tset)))"
    by auto
  have "partialRatio ''ab'' ''b'' = Inr 100"
    by (simp add: partialRatio_def Let_def)
  with p have "p = 100" by simp
  moreover from ts tokenSortRatio_bounds [of "''ab''" "''b''"] have "ts \<le> 100" by auto
  moreover from tset tokenSetRatio_bounds [of "''ab''" "''b''"] have "tset \<le> 100" by auto
  ultimately show ?thesis using w by simp
qed

text \<open>
  Claim C8. Let \<open>shorter\<close> and \<open>longer\<close> be \<open>a\<close> and \<open>b\<close> ordered by length, and let \<open>r w\<close> be
  the value of \<open>levenshteinRatio shorter w\<close>. Then \<open>partialRatio a b\<close> is 0 when either
  string is empty; otherwise 100 when \<open>longer\<close> contains \<open>shorter\<close> as a substring; and
  otherwise the maximum, over every offset \<open>i\<close> from 0 to \<open>|longer| - |shorter|\<close>, of \<open>r\<close> on
  the window of length \<open>|shorter|\<close> that starts at \<open>i\<close> in \<open>longer\<close>. In particular
  \<open>partialRatio ''abc'' ''abcdef'' = 100\<close> and \<open>partialRatio '''' ''x'' = 0\<close>.
\<close>

theorem partialRatio_window_maximum:
  "(let shorter = (if length a \<le> length b then a else b);
        longer = (if length a \<le> length b then b else a) in
    \<exists>r. (\<forall>w. levenshteinRatio shorter w = Inr (r w))
       \<and> partialRatio a b =
           Inr (if a = [] \<or> b = [] then 0
                else if sublist shorter longer then 100
                else Max ((\<lambda>i. r (take (length shorter) (drop i longer)))
                            ` {0..length longer - length shorter})))
   \<and> partialRatio ''abc'' ''abcdef'' = Inr 100
   \<and> partialRatio '''' ''x'' = Inr 0"
proof -
  have "partialRatio ''abc'' ''abcdef'' = Inr 100"
    by (simp add: partialRatio_def Let_def)
  moreover have "partialRatio '''' ''x'' = Inr 0"
    by (simp add: partialRatio_def Let_def)
  moreover have "\<exists>r. (\<forall>w. levenshteinRatio s w = Inr (r w))
       \<and> partialRatio a b =
           Inr (if a = [] \<or> b = [] then 0
                else if sublist s l then 100
                else Max ((\<lambda>i. r (take (length s) (drop i l))) ` {0..length l - length s}))"
    if "s = (if length a \<le> length b then a else b)" "l = (if length a \<le> length b then b else a)"
    for s l
  proof (intro exI [of _ "ratioValue s"] conjI allI)
    show "levenshteinRatio s w = Inr (ratioValue s w)" for w
      by (rule levenshteinRatio_value)
    have "(s = [] \<or> l = []) = (a = [] \<or> b = [])"
      using that by auto
    then show "partialRatio a b =
           Inr (if a = [] \<or> b = [] then 0
                else if sublist s l then 100
                else Max ((\<lambda>i. ratioValue s (take (length s) (drop i l))) ` {0..length l - length s}))"
      using that by (simp only: partialRatio_value partialValue_def)
  qed
  ultimately show ?thesis
    unfolding Let_def by blast
qed

text \<open>
  Claim C10. Every built-in scorer is symmetric in its two string arguments. The scorers of
  the core, \<open>levenshteinRatio\<close>, \<open>partialRatio\<close>, \<open>tokenSortRatio\<close>, \<open>tokenSetRatio\<close> and
  \<open>weightedRatio\<close>, return the same result when \<open>a\<close> and \<open>b\<close> are swapped; and so do the
  scorers of the public interface, \<open>ratio\<close>, \<open>partialRatioScorer\<close>, \<open>tokenSortRatioScorer\<close>,
  \<open>tokenSetRatioScorer\<close> and \<open>WRatio\<close>, with any processor or with the default one.
\<close>

theorem scorers_symmetric:
  "levenshteinRatio a b = levenshteinRatio b a
   \<and> partialRatio a b = partialRatio b a
   \<and> tokenSortRatio a b = tokenSortRatio b a
   \<and> tokenSetRatio a b = tokenSetRatio b a
   \<and> weightedRatio a b = weightedRatio b a
   \<and> ratio a b processor = ratio b a processor
   \<and> partialRatioScorer a b processor = partialRatioScorer b a processor
   \<and> tokenSortRatioScorer a b processor = tokenSortRatioScorer b a processor
   \<and> tokenSetRatioScorer a b processor = tokenSetRatioScorer b a processor
   \<and> WRatio a b processor = WRatio b a processor"
  unfolding ratio_def partialRatioScorer_def tokenSortRatioScorer_def tokenSetRatioScorer_def
    WRatio_def Let_def
  by (intro conjI levenshteinRatio_sym partialRatio_sym tokenSortRatio_sym tokenSetRatio_sym
      weightedRatio_sym)

section \<open>Facts about the selection engines\<close>

subsection \<open>The products in doubles, and the sort\<close>

lemma floor_timesDouble:
  "mathFloor (timesDouble n d) = round53 (n * significand d) div 2 ^ binaryScale d"
proof -
  have "\<lfloor>real a / 2 ^ k\<rfloor> = int (a div 2 ^ k)" for a k :: nat
    by (metis floor_divide_of_nat_eq of_nat_numeral of_nat_power)
  then show ?thesis
    by (simp add: mathFloor_def timesDouble_def)
qed

lemmas dbl_defs = dbl_0_1_def dbl_0_15_def dbl_0_2_def dbl_0_3_def dbl_0_5_def dbl_0_7_def
  dbl_0_9_def

lemma sampleIndices_20001: "sampleIndices 20001 = [2000, 4000, 6000, 10000, 14000, 18000, 20000]"
  by (simp add: sampleIndices_def floor_timesDouble dbl_defs round53_def bitLength.simps Let_def)

lemma sampleIndices_100001:
  "sampleIndices 100001 = [10000, 20000, 30000, 50000, 70000, 90000, 100000]"
  by (simp add: sampleIndices_def floor_timesDouble dbl_defs round53_def bitLength.simps Let_def)

lemma sampleIndices_20001_misses: "19999 \<notin> set (sampleIndices 20001)"
  by (simp add: sampleIndices_20001)

lemma sampleIndices_100001_misses: "Suc 0 \<notin> set (sampleIndices 100001)"
  by (simp add: sampleIndices_100001)

lemma earlyExitThreshold_20001: "earlyExitThreshold 20001 < 10001"
  by (simp add: earlyExitThreshold_def timesDouble_def dbl_defs round53_def bitLength.simps Let_def)

lemma round53_0: "round53 0 = 0"
  by (simp add: round53_def bitLength.simps)

lemma draw_drawsZero: "mathFloor (timesDouble n (drawsZero v)) = 0"
  by (simp add: floor_timesDouble drawsZero_def round53_0)

lemma draw_drawsLow: "mathFloor (timesDouble 100001 (drawsLow v)) = Suc 0"
  by (simp add: floor_timesDouble drawsLow_def round53_def bitLength.simps Let_def)

lemma length_sortWith [simp]: "length (sortWith srt cmp xs) = length xs"
proof -
  from sortWith [of srt] have "mset (sortWith srt cmp xs) = mset xs" by simp
  then show ?thesis by (rule mset_eq_length)
qed

lemma mset_insertSorted: "mset (insertSorted cmp x ys) = add_mset x (mset ys)"
  by (induction ys) simp_all

lemma mset_sortBy: "mset (sortBy cmp xs) = mset xs"
  by (induction xs) (simp_all add: sortBy_def mset_insertSorted)

lemma sortWith_insertionSort: "sortWith insertionSort = sortBy"
  unfolding insertionSort_def
  by (rule SortFunction_inverse) (simp add: mset_sortBy)

lemma sortsPairs_insertionSort: "sortsPairs insertionSort"
  by (simp add: sortsPairs_def sortWith_insertionSort sortBy_def)

subsection \<open>A scorer that throws\<close>

lemma upt_first: "0 < n \<Longrightarrow> [0..<n] = 0 # [1..<n]"
  by (simp add: upt_conv_Cons)

lemma nthOpt_first: "xs \<noteq> [] \<Longrightarrow> nthOpt xs 0 = Some (hd xs)"
  by (cases xs) (simp_all add: nthOpt_def)

lemma scanStep_throws:
  "nthOpt choices i = Some c \<Longrightarrow> scorer query c = Inl e \<Longrightarrow>
   scanStep rt needFull query choices scorer limit st i = Throw e"
  by (cases st) (simp add: scanStep_def)

lemma extract_first_throws:
  assumes ne: "choices \<noteq> []" and pos: "0 < limit" and thr: "scorer query (hd choices) = Inl e"
  shows "extractTop rt query choices scorer limit = Inl e"
proof -
  from ne have len: "0 < length choices" by simp
  have first: "nthOpt choices 0 = Some (hd choices)"
    using ne by (rule nthOpt_first)
  have small: "foldE (scoreInto query choices scorer) [0..<length choices] [] = Inl e"
    by (simp add: upt_first [OF len] scoreInto_def first thr)
  have step: "scanStep rt needFull query choices scorer k st 0 = Throw e" for needFull k st
    using first thr by (rule scanStep_throws)
  have medium: "forLoop [0..<length choices] (scanStep rt False query choices scorer k) st = Throw e"
    for k st
    by (simp add: upt_first [OF len] step)
  have "0 < min (chunkSizeOf (length choices)) (length choices)"
    using len chunkSizeOf_pos [of "length choices"] by simp
  then have "forLoop [0..<min (0 + chunkSizeOf (length choices)) (length choices)]
      (scanStep rt True query choices scorer k) st = Throw e" for k st
    by (simp add: upt_first step)
  then have large: "extractChunked rt query choices scorer k = Inl e" for k
    using len by (simp add: extractChunked_def chunkLoop.simps [of _ _ _ _ _ 0])
  from ne pos show ?thesis
    by (simp add: extractTop_def Let_def small medium large)
qed

lemma extractOne_first_throws:
  assumes ne: "choices \<noteq> []" and thr: "scorer query (hd choices) = Inl e"
  shows "extractOne rt query choices scorer = Inl e"
  using ne by (simp add: extractOne_def nthOpt_first thr)

subsection \<open>Where the random numbers are read\<close>

text \<open>\<open>extractTop\<close> reads of the runtime the sort and the collation only.\<close>

lemma compareResults_draws: "compareResults (rt\<lparr>mathRandom := draws\<rparr>) = compareResults rt"
  by (intro ext) (simp add: compareResults_def Let_def)

lemma getResults_draws: "getResults (rt\<lparr>mathRandom := draws\<rparr>) = getResults rt"
  by (intro ext) (simp add: getResults_def compareResults_draws)

lemma scanStep_draws: "scanStep (rt\<lparr>mathRandom := draws\<rparr>) = scanStep rt"
  by (intro ext) (simp only: scanStep_def getResults_draws)

lemma sampleMore_draws: "sampleMore (rt\<lparr>mathRandom := draws\<rparr>) = sampleMore rt"
  by (intro ext) (simp only: sampleMore_def getResults_draws)

lemma afterChunk_draws: "afterChunk (rt\<lparr>mathRandom := draws\<rparr>) = afterChunk rt"
  by (intro ext) (simp only: afterChunk_def getResults_draws sampleMore_draws)

lemma chunkLoop_draws:
  "chunkLoop (rt\<lparr>mathRandom := draws\<rparr>) query choices scorer limit start processed st
     = chunkLoop rt query choices scorer limit start processed st"
proof (induction rt query choices scorer limit start processed st rule: chunkLoop.induct)
  case (1 rt query choices scorer limit start processed st)
  let ?rt = "rt\<lparr>mathRandom := draws\<rparr>"
  let ?end = "min (start + chunkSizeOf (length choices)) (length choices)"
  show ?case
  proof (cases "start < length choices")
    case False
    then show ?thesis
      by (subst chunkLoop.simps [of ?rt], subst chunkLoop.simps [of rt])
        (simp only: getResults_draws if_False)
  next
    case True
    show ?thesis
    proof (cases "forLoop [start..<?end] (scanStep rt True query choices scorer limit) st")
      case (Throw e)
      with True show ?thesis
        by (subst chunkLoop.simps [of ?rt], subst chunkLoop.simps [of rt])
          (simp only: scanStep_draws if_True flow.case)
    next
      case (Return r)
      with True show ?thesis
        by (subst chunkLoop.simps [of ?rt], subst chunkLoop.simps [of rt])
          (simp only: scanStep_draws if_True flow.case)
    next
      case (Next st')
      show ?thesis
      proof (cases "afterChunk rt query choices scorer limit (processed + (?end - start)) (fst st')")
        case (Some outcome)
        with True Next show ?thesis
          by (subst chunkLoop.simps [of ?rt], subst chunkLoop.simps [of rt])
            (simp only: scanStep_draws afterChunk_draws if_True flow.case option.case)
      next
        case None
        note ih = "1.IH" [OF True Next None]
        from True Next None show ?thesis
          by (subst chunkLoop.simps [of ?rt], subst chunkLoop.simps [of rt])
            (simp only: scanStep_draws afterChunk_draws if_True flow.case option.case ih)
      qed
    qed
  qed
qed

lemma arraySort_draws: "arraySort (rt\<lparr>mathRandom := draws\<rparr>) = arraySort rt"
  by simp

lemma extractTop_draws:
  "extractTop (rt\<lparr>mathRandom := draws\<rparr>) query choices scorer limit
     = extractTop rt query choices scorer limit"
  by (simp only: extractTop_def extractChunked_def chunkLoop_draws scanStep_draws getResults_draws
      compareResults_draws arraySort_draws)

text \<open>
  \<open>extractOne\<close> reads of the runtime the first 100 random numbers only, and only when it
  reaches the verification pass.
\<close>

lemma forLoop_cong_body:
  "(\<And>i s. i \<in> set is \<Longrightarrow> f s i = g s i) \<Longrightarrow> forLoop is f s = forLoop is g s"
  by (induction "is" arbitrary: s) (auto split: flow.splits)

lemma verifyStep_same_draw:
  "mathRandom rt1 v = mathRandom rt2 v \<Longrightarrow>
   verifyStep rt1 query choices scorer st v = verifyStep rt2 query choices scorer st v"
  by (simp add: verifyStep_def)

lemma verification_same_draws:
  assumes "\<forall>v<100. mathRandom rt1 v = mathRandom rt2 v"
  shows "verification rt1 query choices scorer best = verification rt2 query choices scorer best"
proof -
  have "forLoop [0..<100] (verifyStep rt1 query choices scorer) st
      = forLoop [0..<100] (verifyStep rt2 query choices scorer) st" for st
    using assms by (intro forLoop_cong_body verifyStep_same_draw) simp
  then show ?thesis
    by (simp only: verification_def)
qed

lemma upfrontSampling_same_draws:
  assumes first: "nthOpt choices 0 = Some firstChoice"
    and sc: "scorer query firstChoice = Inr bestScore" and no: "bestScore \<noteq> 100"
    and draws: "reachesVerification query choices scorer
      \<longrightarrow> (\<forall>v<100. mathRandom rt1 v = mathRandom rt2 v)"
  shows "upfrontSampling rt1 query choices scorer (firstChoice, bestScore)
     = upfrontSampling rt2 query choices scorer (firstChoice, bestScore)"
proof (cases "strategicSampling query choices scorer (firstChoice, bestScore)")
  case (Throw e)
  then show ?thesis by (simp add: upfrontSampling_def Let_def)
next
  case (Return r)
  then show ?thesis by (simp add: upfrontSampling_def Let_def)
next
  case (Next best)
  show ?thesis
  proof (cases "snd best > 98 \<and> length choices > 100000")
    case False
    with Next show ?thesis by (auto simp: upfrontSampling_def Let_def)
  next
    case True
    with Next first sc no have "reachesVerification query choices scorer"
      by (simp add: reachesVerification_def)
    with draws have "\<forall>v<100. mathRandom rt1 v = mathRandom rt2 v" by simp
    then have "verification rt1 query choices scorer best = verification rt2 query choices scorer best"
      by (rule verification_same_draws)
    with Next show ?thesis by (simp add: upfrontSampling_def Let_def)
  qed
qed

lemma extractOne_same_draws:
  assumes draws: "reachesVerification query choices scorer
      \<longrightarrow> (\<forall>v<100. mathRandom rt1 v = mathRandom rt2 v)"
  shows "extractOne rt1 query choices scorer = extractOne rt2 query choices scorer"
proof (cases "nthOpt choices 0")
  case None
  then show ?thesis by (simp add: extractOne_def)
next
  case (Some firstChoice)
  show ?thesis
  proof (cases "scorer query firstChoice")
    case (Inl e)
    with Some show ?thesis by (simp add: extractOne_def)
  next
    case (Inr bestScore)
    show ?thesis
    proof (cases "bestScore = 100")
      case True
      with Some Inr show ?thesis by (simp add: extractOne_def)
    next
      case False
      from upfrontSampling_same_draws [OF Some Inr False draws]
      have "extractOneChunked rt1 query choices scorer firstChoice bestScore
          = extractOneChunked rt2 query choices scorer firstChoice bestScore"
        by (simp only: extractOneChunked_def)
      with Some Inr False show ?thesis by (simp add: extractOne_def)
    qed
  qed
qed

subsection \<open>Scans that find nothing better\<close>

lemma forLoop_unchanged:
  "(\<And>i. i \<in> set is \<Longrightarrow> body s i = Next s) \<Longrightarrow> forLoop is body s = Next s"
  by (induction "is") simp_all

lemma consider_unchanged:
  assumes "\<And>c. nthOpt choices i = Some c \<Longrightarrow> \<exists>v. scorer query c = Inr v \<and> v \<le> bestScore"
  shows "considerChoice query choices scorer (bestChoice, bestScore) i = Next (bestChoice, bestScore)"
proof (cases "nthOpt choices i")
  case None
  then show ?thesis by (simp add: considerChoice_def)
next
  case (Some c)
  with assms obtain v where "scorer query c = Inr v" "v \<le> bestScore" by blast
  with Some show ?thesis by (simp add: considerChoice_def)
qed

lemma length_hiddenMatch: "length hiddenMatch = 20001"
  by (simp add: hiddenMatch_def)

lemma nth_hiddenMatch: "i < 20001 \<Longrightarrow> i \<noteq> 19999 \<Longrightarrow> hiddenMatch ! i = ''b''"
proof -
  assume i: "i < 20001" "i \<noteq> 19999"
  show ?thesis
  proof (cases "i < 19999")
    case True
    then show ?thesis by (simp add: hiddenMatch_def nth_append)
  next
    case False
    with i have "i = 20000" by simp
    then show ?thesis by (simp add: hiddenMatch_def nth_append)
  qed
qed

lemma consider_hiddenMatch:
  "i \<noteq> 19999 \<Longrightarrow> considerChoice ''a'' hiddenMatch exactOr99 (''b'', 99) i = Next (''b'', 99)"
proof (rule consider_unchanged)
  fix c
  assume "i \<noteq> 19999" and "nthOpt hiddenMatch i = Some c"
  then have "c = ''b''"
    using nth_hiddenMatch [of i]
    by (auto simp: nthOpt_def length_hiddenMatch split: if_splits)
  then show "\<exists>v. exactOr99 ''a'' c = Inr v \<and> v \<le> 99"
    by (simp add: exactOr99_def)
qed

lemma scan_hiddenMatch:
  "19999 \<notin> set is \<Longrightarrow> forLoop is (considerChoice ''a'' hiddenMatch exactOr99) (''b'', 99) = Next (''b'', 99)"
  by (rule forLoop_unchanged, rule consider_hiddenMatch) auto

lemma evenIndices_20001: "19999 \<notin> set (evenIndices 20001)"
proof
  assume "19999 \<in> set (evenIndices 20001)"
  then obtain s :: nat where "19999 = 1250 + 1250 * s"
    by (auto simp: evenIndices_def additionalSamples_def)
  then have "(19999::nat) mod 1250 = (1250 + 1250 * s) mod 1250"
    by (rule arg_cong [where f = "\<lambda>x. x mod 1250"])
  then show False by simp
qed

lemma strategicIndices_20001: "19999 \<notin> set (strategicIndices 20001 10001)"
proof
  assume "19999 \<in> set (strategicIndices 20001 10001)"
  then have "19999 \<in> set (map (\<lambda>s. 10001 + s * 50) [0..<200::nat])"
    by (auto simp: strategicIndices_def Let_def dest: set_takeWhileD)
  then obtain s :: nat where "19999 = 10001 + s * 50" by auto
  then have "(19999::nat) mod 50 = (10001 + s * 50) mod 50"
    by (rule arg_cong [where f = "\<lambda>x. x mod 50"])
  then show False by simp
qed

lemma extractOne_hiddenMatch:
  "extractOne rt ''a'' hiddenMatch exactOr99 = Inr (Some \<lparr>choice = ''b'', score = 99\<rparr>)"
proof -
  have first: "nthOpt hiddenMatch 0 = Some ''b''"
    using nth_hiddenMatch [of 0] by (simp add: nthOpt_def length_hiddenMatch)
  have "strategicSampling ''a'' hiddenMatch exactOr99 (''b'', 99) = Next (''b'', 99)"
    by (simp add: strategicSampling_def length_hiddenMatch scan_hiddenMatch
        evenIndices_20001 sampleIndices_20001_misses)
  then have up: "upfrontSampling rt ''a'' hiddenMatch exactOr99 (''b'', 99) = Next (''b'', 99)"
    by (simp add: upfrontSampling_def length_hiddenMatch)
  have chunk: "forLoop [Suc 0..<10001] (considerChoice ''a'' hiddenMatch exactOr99) (''b'', 99) = Next (''b'', 99)"
    by (rule scan_hiddenMatch) simp
  have sample: "forLoop (strategicIndices 20001 10001) (considerChoice ''a'' hiddenMatch exactOr99) (''b'', 99)
      = Next (''b'', 99)"
    by (rule scan_hiddenMatch) (rule strategicIndices_20001)
  have scan: "scanChunks ''a'' hiddenMatch exactOr99 (Suc 0) (Suc 0) (''b'', 99)
      = Inr \<lparr>choice = ''b'', score = 99\<rparr>"
    by (subst scanChunks.simps)
      (simp add: length_hiddenMatch oneChunkSize_def chunk earlyExitThreshold_20001 sample
        bestResult_def)
  show ?thesis
    by (simp add: extractOne_def length_hiddenMatch first exactOr99_def [of "''a''" "''b''"]
        extractOneChunked_def up scan)
qed

subsection \<open>The heap keeps its length\<close>

lemma length_bubbleUp [simp]: "length (bubbleUp h index) = length h"
proof (induction h index rule: bubbleUp.induct)
  case (1 h index)
  show ?case
  proof (cases "0 < index \<and> (\<exists>p c. nthOpt h ((index - 1) div 2) = Some p \<and> nthOpt h index = Some c
      \<and> \<not> score p \<le> score c)")
    case False
    then show ?thesis
      by (subst bubbleUp.simps) (auto split: option.splits)
  next
    case True
    then obtain p c where pc: "0 < index" "nthOpt h ((index - 1) div 2) = Some p"
      "nthOpt h index = Some c" "\<not> score p \<le> score c"
      by blast
    from "1" [OF pc(1) refl pc(2) pc(3) pc(4)]
    have "length (bubbleUp ((h[index := p])[(index - 1) div 2 := c]) ((index - 1) div 2)) = length h"
      by simp
    with pc show ?thesis
      by (subst bubbleUp.simps) simp
  qed
qed

lemma length_bubbleDown [simp]: "length (bubbleDown h index) = length h"
proof (induction h index rule: bubbleDown.induct)
  case (1 h index)
  show ?case
  proof (cases "\<exists>c s. nthOpt h index = Some c \<and> smallestChild h index c \<noteq> index
      \<and> nthOpt h (smallestChild h index c) = Some s")
    case False
    then show ?thesis
      by (subst bubbleDown.simps) (auto split: option.splits)
  next
    case True
    then obtain c s where cs: "nthOpt h index = Some c" "smallestChild h index c \<noteq> index"
      "nthOpt h (smallestChild h index c) = Some s"
      by blast
    from "1" [OF cs] have "length (bubbleDown ((h[index := s])[smallestChild h index c := c])
        (smallestChild h index c)) = length h"
      by simp
    with cs show ?thesis
      by (subst bubbleDown.simps) simp
  qed
qed

lemma heapSize_push [simp]: "heapSize (push mh r) = heapSize mh"
  by (simp add: push_def)

lemma length_push:
  "0 < heapSize mh \<Longrightarrow> length (heap mh) \<le> heapSize mh \<Longrightarrow>
   length (heap (push mh r)) = min (heapSize mh) (Suc (length (heap mh)))"
  by (auto simp: push_def setFirst_def)

lemma heapAfter_new: "heapAfter limit 0 (newMinHeap limit)"
  by (simp add: heapAfter_def newMinHeap_def)

lemma heapAfter_push: "0 < limit \<Longrightarrow> heapAfter limit n hp \<Longrightarrow> heapAfter limit (Suc n) (push hp r)"
  by (auto simp: heapAfter_def length_push)

lemma heapAfter_full: "heapAfter limit n hp \<Longrightarrow> limit \<le> n \<Longrightarrow> heapAfter limit m hp \<longleftrightarrow> limit \<le> m"
  by (auto simp: heapAfter_def)

lemma length_getResults:
  "heapAfter limit n hp \<Longrightarrow> limit \<le> n \<Longrightarrow> length (take limit (getResults rt hp)) = limit"
  by (simp add: heapAfter_def getResults_def)

subsection \<open>Every tier of \<open>extractTop\<close> returns \<open>limit\<close> results\<close>

lemma scoresAll_nth:
  "scoresAll scorer query choices \<Longrightarrow> i < length choices \<Longrightarrow> \<exists>v. scorer query (choices ! i) = Inr v"
  by (simp add: scoresAll_def)

lemma nthOpt_in_range: "i < length xs \<Longrightarrow> nthOpt xs i = Some (xs ! i)"
  by (simp add: nthOpt_def)

lemma scoreInto_run:
  assumes tot: "scoresAll scorer query choices"
  shows "\<forall>i\<in>set is. i < length choices \<Longrightarrow>
     \<exists>rs'. foldE (scoreInto query choices scorer) is rs = Inr rs' \<and> length rs' = length rs + length is"
proof (induction "is" arbitrary: rs)
  case Nil
  show ?case by simp
next
  case (Cons i "is")
  then have i: "i < length choices" by simp
  with tot obtain v where v: "scorer query (choices ! i) = Inr v"
    using scoresAll_nth by blast
  from Cons.prems Cons.IH [of "rs @ [\<lparr>choice = choices ! i, score = v\<rparr>]"]
  show ?case
    by (simp add: scoreInto_def nthOpt_in_range [OF i] v)
qed

lemma scanStep_inv:
  assumes tot: "scoresAll scorer query choices"
    and lim: "0 < limit" and hp: "heapAfter limit n hp" and pm: "pm \<le> n"
    and i: "i < length choices"
  shows "case scanStep rt nf query choices scorer limit (hp, pm) i of
           Throw e \<Rightarrow> False
         | Return r \<Rightarrow> length r = limit
         | Next st \<Rightarrow> heapAfter limit (Suc n) (fst st) \<and> snd st \<le> Suc n"
proof -
  from tot i obtain v where v: "scorer query (choices ! i) = Inr v"
    using scoresAll_nth by blast
  let ?r = "\<lparr>choice = choices ! i, score = v\<rparr>"
  have h': "heapAfter limit (Suc n) (push hp ?r)"
    using lim hp by (rule heapAfter_push)
  have "limit \<le> Suc pm \<Longrightarrow> length (take limit (getResults rt (push hp ?r))) = limit"
    using pm by (intro length_getResults [OF h']) simp
  with h' pm show ?thesis
    by (auto simp: scanStep_def nthOpt_in_range [OF i] v Let_def)
qed

lemma scanLoop_inv:
  assumes tot: "scoresAll scorer query choices"
    and lim: "0 < limit"
  shows "heapAfter limit n hp \<Longrightarrow> pm \<le> n \<Longrightarrow> \<forall>i\<in>set is. i < length choices \<Longrightarrow>
     (case forLoop is (scanStep rt nf query choices scorer limit) (hp, pm) of
        Throw e \<Rightarrow> False
      | Return r \<Rightarrow> length r = limit
      | Next st \<Rightarrow> heapAfter limit (n + length is) (fst st) \<and> snd st \<le> n + length is)"
proof (induction "is" arbitrary: hp pm n)
  case Nil
  then show ?case by simp
next
  case (Cons i "is")
  then have i: "i < length choices" and rest: "\<forall>i\<in>set is. i < length choices"
    by simp_all
  note step = scanStep_inv [OF tot lim Cons.prems(1) Cons.prems(2) i, of rt nf]
  show ?case
  proof (cases "scanStep rt nf query choices scorer limit (hp, pm) i")
    case (Throw e)
    with step show ?thesis by simp
  next
    case (Return r)
    with step show ?thesis by simp
  next
    case (Next st)
    obtain hp' pm' where st: "st = (hp', pm')" by (cases st)
    with step Next have "heapAfter limit (Suc n) hp'" "pm' \<le> Suc n" by simp_all
    note ih = Cons.IH [OF this rest]
    have eq: "Suc n + length is = n + length (i # is)" by simp
    from ih Next st show ?thesis
      unfolding eq by simp
  qed
qed

lemma pushScored_inv:
  assumes tot: "scoresAll scorer query choices"
    and lim: "0 < limit" and hp: "heapAfter limit n hp" and full: "limit \<le> n"
  shows "\<exists>hp'. pushScored query choices scorer hp i = Inr hp' \<and> heapAfter limit n hp'"
proof (cases "i < length choices")
  case False
  with hp show ?thesis by (simp add: pushScored_def nthOpt_def)
next
  case True
  with tot obtain v where v: "scorer query (choices ! i) = Inr v"
    using scoresAll_nth by blast
  have "heapAfter limit (Suc n) (push hp \<lparr>choice = choices ! i, score = v\<rparr>)"
    using lim hp by (rule heapAfter_push)
  with full have "heapAfter limit n (push hp \<lparr>choice = choices ! i, score = v\<rparr>)"
    by (simp add: heapAfter_def)
  then show ?thesis
    by (simp add: pushScored_def nthOpt_in_range [OF True] v)
qed

lemma foldE_inv:
  assumes "\<And>s i. I s \<Longrightarrow> \<exists>s'. f s i = Inr s' \<and> I s'"
  shows "I s \<Longrightarrow> \<exists>s'. foldE f is s = Inr s' \<and> I s'"
proof (induction "is" arbitrary: s)
  case Nil
  then show ?case by simp
next
  case (Cons i "is")
  from assms [OF Cons.prems, of i] obtain s' where "f s i = Inr s'" "I s'" by blast
  with Cons.IH [of s'] show ?case by simp
qed

lemma sampleMore_inv:
  assumes tot: "scoresAll scorer query choices"
    and lim: "0 < limit" and hp: "heapAfter limit n hp" and full: "limit \<le> n"
  shows "\<exists>r. sampleMore rt query choices scorer limit processed hp = Inr r \<and> length r = limit"
proof -
  have inner: "\<exists>hp'. foldE (pushScored query choices scorer) is hp = Inr hp' \<and> heapAfter limit n hp'"
    if "heapAfter limit n hp" for hp "is"
    using that
    by (rule foldE_inv [where I = "heapAfter limit n", rotated])
      (rule pushScored_inv [OF tot lim _ full])
  have "\<exists>hp'. foldE (\<lambda>hp c.
               let sampleStart = processed + c * chunkSizeOf (length choices);
                   sampleEnd = min (sampleStart + chunkSizeOf (length choices)) (length choices) in
               foldE (pushScored query choices scorer) [sampleStart..<sampleEnd] hp)
             cs hp = Inr hp' \<and> heapAfter limit n hp'" for cs
    using hp
    by (rule foldE_inv [where I = "heapAfter limit n", rotated]) (simp add: Let_def inner)
  then obtain hp' where "foldE (\<lambda>hp c.
               let sampleStart = processed + c * chunkSizeOf (length choices);
                   sampleEnd = min (sampleStart + chunkSizeOf (length choices)) (length choices) in
               foldE (pushScored query choices scorer) [sampleStart..<sampleEnd] hp)
             [0..<min 2 ((length choices - processed) div chunkSizeOf (length choices))] hp = Inr hp'"
    and "heapAfter limit n hp'"
    by blast
  with length_getResults [OF this(2) full, of rt] show ?thesis
    by (simp add: sampleMore_def Let_def)
qed

lemma afterChunk_inv:
  assumes tot: "scoresAll scorer query choices"
    and lim: "0 < limit" and hp: "heapAfter limit n hp"
    and out: "afterChunk rt query choices scorer limit processed hp = Some outcome"
  shows "\<exists>r. outcome = Inr r \<and> length r = limit"
proof -
  from out have len: "limit \<le> length (getResults rt hp)"
    and o: "outcome = sampleMore rt query choices scorer limit processed hp"
    by (auto simp: afterChunk_def Let_def split: if_splits)
  from len hp have "limit \<le> n"
    by (simp add: getResults_def heapAfter_def)
  from sampleMore_inv [OF tot lim hp this] o show ?thesis by simp
qed

lemma chunkLoop_inv:
  "scoresAll scorer query choices \<Longrightarrow> 0 < limit \<Longrightarrow> limit \<le> length choices \<Longrightarrow>
   heapAfter limit (min start (length choices)) (fst st) \<Longrightarrow>
   snd st \<le> min start (length choices) \<Longrightarrow>
   \<exists>r. chunkLoop rt query choices scorer limit start processed st = Inr r \<and> length r = limit"
proof (induction rt query choices scorer limit start processed st rule: chunkLoop.induct)
  case (1 rt query choices scorer limit start processed st)
  let ?len = "length choices"
  let ?end = "min (start + chunkSizeOf ?len) ?len"
  note tot = "1.prems"(1) and lim = "1.prems"(2) and le = "1.prems"(3)
  show ?case
  proof (cases "start < ?len")
    case False
    then have "min start ?len = ?len" by simp
    with "1.prems"(4) have "heapAfter limit ?len (fst st)" by simp
    from length_getResults [OF this le, of rt] False show ?thesis
      by (subst chunkLoop.simps) simp
  next
    case True
    then have m: "min start ?len = start" by simp
    obtain hp pm where st: "st = (hp, pm)" by (cases st)
    from "1.prems"(4,5) m st have hp: "heapAfter limit start hp" and pm: "pm \<le> start"
      by simp_all
    have rng: "\<forall>i\<in>set [start..<?end]. i < ?len" by simp
    have len': "start + length [start..<?end] = ?end"
      using True by simp
    note loop = scanLoop_inv [OF tot lim hp pm rng, of rt True, unfolded len']
    show ?thesis
    proof (cases "forLoop [start..<?end] (scanStep rt True query choices scorer limit) st")
      case (Throw e)
      with loop st show ?thesis by simp
    next
      case (Return r)
      with loop st True show ?thesis
        by (subst chunkLoop.simps) simp
    next
      case (Next st')
      with loop st have hp': "heapAfter limit ?end (fst st')" and pm': "snd st' \<le> ?end"
        by simp_all
      show ?thesis
      proof (cases "afterChunk rt query choices scorer limit (processed + (?end - start)) (fst st')")
        case (Some outcome)
        from afterChunk_inv [OF tot lim hp' Some] Some Next True show ?thesis
          by (subst chunkLoop.simps) auto
      next
        case None
        have e: "min (start + chunkSizeOf ?len) ?len = ?end" ..
        from "1.IH" [OF True Next None tot lim le] hp' pm'
        have "\<exists>r. chunkLoop rt query choices scorer limit (start + chunkSizeOf ?len)
                 (processed + (?end - start)) st' = Inr r \<and> length r = limit"
          by simp
        with None Next True show ?thesis
          by (subst chunkLoop.simps) simp
      qed
    qed
  qed
qed

lemma extract_limit_results:
  assumes tot: "scoresAll scorer query choices" and ne: "choices \<noteq> []" and pos: "0 < limit0"
  shows "\<exists>rs. extractTop rt query choices scorer limit0 = Inr rs
           \<and> length rs = min (nat limit0) (length choices)"
proof -
  let ?len = "length choices"
  define limit where "limit = (if limit0 > int ?len then ?len else nat limit0)"
  from pos ne have k: "limit = min (nat limit0) ?len" and lim: "0 < limit" and le: "limit \<le> ?len"
    by (auto simp: limit_def)
  have small: "\<exists>rs. bindE (foldE (scoreInto query choices scorer) [0..<?len] [])
            (\<lambda>results. Inr (take limit (sortWith (arraySort rt) (compareResults rt) results)))
          = Inr rs \<and> length rs = limit"
  proof -
    from scoreInto_run [OF tot, of "[0..<?len]" "[]"]
    obtain rs where "foldE (scoreInto query choices scorer) [0..<?len] [] = Inr rs" "length rs = ?len"
      by auto
    with le show ?thesis
      by simp
  qed
  have large: "\<exists>rs. extractChunked rt query choices scorer limit = Inr rs \<and> length rs = limit"
    unfolding extractChunked_def
    by (rule chunkLoop_inv [OF tot lim le]) (simp_all add: heapAfter_new)
  have medium: "\<exists>rs. (case forLoop [0..<?len] (scanStep rt False query choices scorer limit)
                      (newMinHeap limit, 0) of
             Throw e \<Rightarrow> Inl e
           | Return r \<Rightarrow> Inr r
           | Next st \<Rightarrow> Inr (take limit (getResults rt (fst st)))) = Inr rs \<and> length rs = limit"
  proof -
    have "case forLoop [0..<?len] (scanStep rt False query choices scorer limit) (newMinHeap limit, 0) of
        Throw e \<Rightarrow> False
      | Return r \<Rightarrow> length r = limit
      | Next st \<Rightarrow> heapAfter limit (0 + length [0..<?len]) (fst st) \<and> snd st \<le> 0 + length [0..<?len]"
      by (rule scanLoop_inv [OF tot lim heapAfter_new]) simp_all
    then show ?thesis
      using length_getResults [OF _ le, of _ rt]
      by (auto split: flow.splits)
  qed
  from ne pos small medium large show ?thesis
    unfolding extractTop_def Let_def limit_def [symmetric] k [symmetric]
    by simp
qed

lemma extract_empty:
  "choices = [] \<or> limit0 \<le> 0 \<Longrightarrow> extractTop rt query choices scorer limit0 = Inr []"
  by (auto simp: extractTop_def)

subsection \<open>The short scan of \<open>extractOne\<close> reaches a score of 100\<close>

lemma scoresUpTo100_nth:
  "scoresUpTo100 scorer query choices \<Longrightarrow> i < length choices \<Longrightarrow>
   \<exists>v. scorer query (choices ! i) = Inr v \<and> v \<le> 100"
  by (simp add: scoresUpTo100_def)

lemma consider_inv:
  assumes tot: "scoresUpTo100 scorer query choices" and i: "i < length choices"
    and v: "scorer query (choices ! i) = Inr v"
  shows "case considerChoice query choices scorer (bc, bs) i of
           Throw e \<Rightarrow> False
         | Return r \<Rightarrow> score r = 100
         | Next b \<Rightarrow> bs \<le> snd b \<and> v \<le> snd b \<and> (bs \<le> 100 \<longrightarrow> snd b \<le> 100)"
  using scoresUpTo100_nth [OF tot i] v
  by (auto simp: considerChoice_def nthOpt_in_range [OF i])

lemma considerLoop_inv:
  assumes tot: "scoresUpTo100 scorer query choices"
  shows "\<forall>i\<in>set is. i < length choices \<Longrightarrow> bs \<le> 100 \<Longrightarrow>
     (case forLoop is (considerChoice query choices scorer) (bc, bs) of
        Throw e \<Rightarrow> False
      | Return r \<Rightarrow> score r = 100
      | Next b \<Rightarrow> bs \<le> snd b \<and> snd b \<le> 100
          \<and> (\<forall>i\<in>set is. \<forall>v. scorer query (choices ! i) = Inr v \<longrightarrow> v \<le> snd b))"
proof (induction "is" arbitrary: bc bs)
  case Nil
  then show ?case by simp
next
  case (Cons i "is")
  then have i: "i < length choices" and rest: "\<forall>i\<in>set is. i < length choices"
    by simp_all
  from scoresUpTo100_nth [OF tot i] obtain v where v: "scorer query (choices ! i) = Inr v"
    by blast
  note step = consider_inv [OF tot i v, where bc = bc and bs = bs]
  show ?case
  proof (cases "considerChoice query choices scorer (bc, bs) i")
    case (Throw e)
    with step show ?thesis by simp
  next
    case (Return r)
    with step show ?thesis by simp
  next
    case (Next b)
    obtain bc' bs' where b: "b = (bc', bs')" by (cases b)
    with step Next Cons.prems(2) have le: "bs \<le> bs'" "v \<le> bs'" "bs' \<le> 100"
      by simp_all
    note ih = Cons.IH [OF rest le(3), where bc = bc']
    show ?thesis
    proof (cases "forLoop is (considerChoice query choices scorer) (bc', bs')")
      case (Throw e)
      with ih show ?thesis by simp
    next
      case (Return r)
      with ih Next b show ?thesis by simp
    next
      case n: (Next b')
      with ih le v Next b show ?thesis by auto
    qed
  qed
qed

lemma result_with_score: "score r = v \<Longrightarrow> \<exists>c. r = \<lparr>choice = c, score = v\<rparr>"
  by (cases r) simp

lemma extractOne_short_finds_match:
  assumes short: "length choices \<le> 20000" and mem: "query \<in> set choices"
    and exact: "scorer query query = Inr 100"
    and tot: "scoresUpTo100 scorer query choices"
  shows "\<exists>c. extractOne rt query choices scorer = Inr (Some \<lparr>choice = c, score = 100\<rparr>)"
proof -
  from mem obtain k where k: "k < length choices" "choices ! k = query"
    by (auto simp: in_set_conv_nth)
  then have ne: "choices \<noteq> []" by auto
  then have first: "nthOpt choices 0 = Some (choices ! 0)"
    by (simp add: nthOpt_def)
  from ne scoresUpTo100_nth [OF tot, of 0] obtain v0 where v0: "scorer query (choices ! 0) = Inr v0"
    "v0 \<le> 100"
    by auto
  show ?thesis
  proof (cases "v0 = 100")
    case True
    with ne first v0 show ?thesis
      by (simp add: extractOne_def)
  next
    case False
    with k exact v0 have "k \<noteq> 0" by (cases k) auto
    with k have kin: "k \<in> set [1..<length choices]" by simp
    have rng: "\<forall>i\<in>set [1..<length choices]. i < length choices" by simp
    note loop = considerLoop_inv [OF tot rng v0(2), where bc = "choices ! 0"]
    have "\<exists>c. (case forLoop [1..<length choices] (considerChoice query choices scorer) (choices ! 0, v0) of
                   Throw e \<Rightarrow> Inl e
                 | Return r \<Rightarrow> Inr (Some r)
                 | Next best \<Rightarrow> Inr (Some (bestResult best)))
              = Inr (Some \<lparr>choice = c, score = 100\<rparr>)"
    proof (cases "forLoop [1..<length choices] (considerChoice query choices scorer) (choices ! 0, v0)")
      case (Throw e)
      with loop show ?thesis by simp
    next
      case (Return r)
      with loop result_with_score [of r 100] show ?thesis by auto
    next
      case (Next b)
      with loop kin k(2) exact have "snd b = 100" by force
      with Next show ?thesis by (simp add: bestResult_def)
    qed
    with ne first v0 False short show ?thesis
      by (simp add: extractOne_def)
  qed
qed

subsection \<open>Concrete runs\<close>

lemma length_drawnMatch: "length drawnMatch = 100001"
  by (simp add: drawnMatch_def)

lemma nth_drawnMatch: "i < 100001 \<Longrightarrow> i \<noteq> 1 \<Longrightarrow> drawnMatch ! i = ''b''"
  by (cases i; cases "i - 1") (simp_all add: drawnMatch_def)

lemma nth_drawnMatch_1: "nthOpt drawnMatch (Suc 0) = Some ''a''"
  by (simp add: drawnMatch_def nthOpt_def)

lemma first_drawnMatch: "nthOpt drawnMatch 0 = Some ''b''"
  by (simp add: drawnMatch_def nthOpt_def)

lemma consider_drawnMatch:
  assumes "scorer ''a'' ''b'' = Inr s" and "i \<noteq> Suc 0"
  shows "considerChoice ''a'' drawnMatch scorer (''b'', s) i = Next (''b'', s)"
proof (rule consider_unchanged)
  fix c
  assume "nthOpt drawnMatch i = Some c"
  with assms(2) have "c = ''b''"
    using nth_drawnMatch [of i]
    by (auto simp: nthOpt_def length_drawnMatch split: if_splits)
  with assms(1) show "\<exists>v. scorer ''a'' c = Inr v \<and> v \<le> s"
    by simp
qed

lemma scan_drawnMatch:
  "scorer ''a'' ''b'' = Inr s \<Longrightarrow> Suc 0 \<notin> set is \<Longrightarrow>
   forLoop is (considerChoice ''a'' drawnMatch scorer) (''b'', s) = Next (''b'', s)"
  by (rule forLoop_unchanged, rule consider_drawnMatch) auto

lemma evenIndices_100001: "Suc 0 \<notin> set (evenIndices 100001)"
proof
  assume "Suc 0 \<in> set (evenIndices 100001)"
  then obtain s :: nat where "1 = (100000 * (s + 1)) div 31"
    by (auto simp: evenIndices_def additionalSamples_def)
  moreover have "100000 div 31 \<le> (100000 * (s + 1)) div 31"
    by (rule div_le_mono) simp
  ultimately show False by simp
qed

lemma sampling_drawnMatch:
  "scorer ''a'' ''b'' = Inr s \<Longrightarrow>
   strategicSampling ''a'' drawnMatch scorer (''b'', s) = Next (''b'', s)"
  by (simp add: strategicSampling_def length_drawnMatch scan_drawnMatch evenIndices_100001
      sampleIndices_100001_misses)

lemma reaches_exactOr99: "reachesVerification ''a'' drawnMatch exactOr99"
  by (simp add: reachesVerification_def first_drawnMatch length_drawnMatch
      exactOr99_def [of "''a''" "''b''"] sampling_drawnMatch [of exactOr99 99])

lemma reaches_exactOr50: "\<not> reachesVerification ''a'' drawnMatch exactOr50"
  by (simp add: reachesVerification_def first_drawnMatch length_drawnMatch
      exactOr50_def [of "''a''" "''b''"] sampling_drawnMatch [of exactOr50 50])

lemma verify_drawsZero:
  "forLoop vs (verifyStep (runtimeDrawing drawsZero) ''a'' drawnMatch exactOr99) ((''b'', 99), False)
     = Next ((''b'', 99), False)"
proof (rule forLoop_unchanged)
  fix v
  show "verifyStep (runtimeDrawing drawsZero) ''a'' drawnMatch exactOr99 ((''b'', 99), False) v
      = Next ((''b'', 99), False)"
    by (simp add: verifyStep_def runtimeDrawing_def draw_drawsZero first_drawnMatch exactOr99_def)
qed

lemma verify_drawsLow:
  "forLoop [0..<100] (verifyStep (runtimeDrawing drawsLow) ''a'' drawnMatch exactOr99)
       ((''b'', 99), False)
     = Return \<lparr>choice = ''a'', score = 100\<rparr>"
proof -
  have "verifyStep (runtimeDrawing drawsLow) ''a'' drawnMatch exactOr99 ((''b'', 99), False) 0
      = Return \<lparr>choice = ''a'', score = 100\<rparr>"
    by (simp add: verifyStep_def runtimeDrawing_def length_drawnMatch draw_drawsLow
        nth_drawnMatch_1 exactOr99_def)
  moreover have "[0..<100] = 0 # [Suc 0..<100]"
    by (rule upt_conv_Cons) simp
  ultimately show ?thesis
    by (simp only: forLoop.simps flow.case)
qed

lemma upfront_drawsZero:
  "upfrontSampling (runtimeDrawing drawsZero) ''a'' drawnMatch exactOr99 (''b'', 99)
     = Return \<lparr>choice = ''b'', score = 99\<rparr>"
  by (simp add: upfrontSampling_def length_drawnMatch sampling_drawnMatch [of exactOr99 99]
      exactOr99_def [of "''a''" "''b''"] verification_def verify_drawsZero bestResult_def)

lemma upfront_drawsLow:
  "upfrontSampling (runtimeDrawing drawsLow) ''a'' drawnMatch exactOr99 (''b'', 99)
     = Return \<lparr>choice = ''a'', score = 100\<rparr>"
  by (simp add: upfrontSampling_def length_drawnMatch sampling_drawnMatch [of exactOr99 99]
      exactOr99_def [of "''a''" "''b''"] verification_def verify_drawsLow)

lemma extractOne_drawsZero:
  "extractOne (runtimeDrawing drawsZero) ''a'' drawnMatch exactOr99
     = Inr (Some \<lparr>choice = ''b'', score = 99\<rparr>)"
  by (simp add: extractOne_def length_drawnMatch first_drawnMatch exactOr99_def [of "''a''" "''b''"]
      extractOneChunked_def upfront_drawsZero)

lemma extractOne_drawsLow:
  "extractOne (runtimeDrawing drawsLow) ''a'' drawnMatch exactOr99
     = Inr (Some \<lparr>choice = ''a'', score = 100\<rparr>)"
  by (simp add: extractOne_def length_drawnMatch first_drawnMatch exactOr99_def [of "''a''" "''b''"]
      extractOneChunked_def upfront_drawsLow)

lemma extract_nearTie:
  assumes srt: "sortsPairs (arraySort rt)"
    and aa: "localeCompare rt ''a'' ''a'' = 0" and bb: "localeCompare rt ''b'' ''b'' = 0"
    and ab: "localeCompare rt ''a'' ''b'' < 0" and ba: "0 < localeCompare rt ''b'' ''a''"
  shows "extractTop rt ''q'' [''a'', ''b''] nearTie 2
     = Inr [\<lparr>choice = ''a'', score = 50\<rparr>, \<lparr>choice = ''b'', score = 50.0005\<rparr>]"
proof -
  let ?a = "\<lparr>choice = ''a'', score = 50\<rparr>" and ?b = "\<lparr>choice = ''b'', score = 50.0005\<rparr>"
  have scored: "foldE (scoreInto ''q'' [''a'', ''b''] nearTie) [0, Suc 0] [] = Inr [?a, ?b]"
    by (simp add: scoreInto_def nthOpt_def nearTie_def)
  have "compareResults rt ?a ?a = 0" "compareResults rt ?b ?b = 0"
    "compareResults rt ?a ?b < 0" "0 < compareResults rt ?b ?a"
    using aa bb ab ba by (simp_all add: compareResults_def)
  with srt have "sortWith (arraySort rt) (compareResults rt) [?a, ?b] = [?a, ?b]"
    unfolding sortsPairs_def by blast
  with scored show ?thesis
    by (simp add: extractTop_def Let_def)
qed

section \<open>Claims about the selection engines\<close>

text \<open>
  Claim C1, as stated: whenever some candidate equals the query and the scorer returns 100
  on equal strings, \<open>extractOne\<close> returns a score of exactly 100, whatever the number of
  candidates. It fails on 20001 candidates, of which only the one at index 19999 equals the
  query, under a scorer that gives 99 to every other string: no sample visits that index,
  and the scan stops after the first chunk, content with 99.
\<close>

theorem extractOne_misses_exact_match:
  "''a'' \<in> set hiddenMatch \<and> exactOr99 ''a'' ''a'' = Inr 100
   \<and> extractOne (runtimeDrawing drawsZero) ''a'' hiddenMatch exactOr99
       = Inr (Some \<lparr>choice = ''b'', score = 99\<rparr>)"
  by (simp add: extractOne_hiddenMatch exactOr99_def) (simp add: hiddenMatch_def)

text \<open>
  Claim C1, amended: for at most 20000 candidates, one of which equals the query, and a
  scorer that returns 100 on the query against itself and a number no greater than 100 on
  every candidate, \<open>extractOne\<close> returns a result whose score is exactly 100.
\<close>

theorem extractOne_exact_match_short:
  assumes "length choices \<le> 20000" and "query \<in> set choices"
    and "scorer query query = Inr 100"
    and "\<forall>c\<in>set choices. \<exists>v. scorer query c = Inr v \<and> v \<le> 100"
  shows "\<exists>c. extractOne rt query choices scorer = Inr (Some \<lparr>choice = c, score = 100\<rparr>)"
  using assms by (intro extractOne_short_finds_match) (simp_all add: scoresUpTo100_def)

theorem extractOne_exact_match_short_witness:
  "length [''b'', ''a''] \<le> 20000 \<and> ''a'' \<in> set [''b'', ''a'']
   \<and> exactOr99 ''a'' ''a'' = Inr 100 \<and> exactOr99 ''a'' ''b'' = Inr 99
   \<and> (\<exists>c. extractOne (runtimeDrawing drawsZero) ''a'' [''b'', ''a''] exactOr99
            = Inr (Some \<lparr>choice = c, score = 100\<rparr>))"
proof -
  have s: "exactOr99 ''a'' ''b'' = Inr 99"
    by (simp add: exactOr99_def)
  have h: "length [''b'', ''a''] \<le> 20000" "''a'' \<in> set [''b'', ''a'']"
    "exactOr99 ''a'' ''a'' = Inr 100"
    "\<forall>c\<in>set [''b'', ''a'']. \<exists>v. exactOr99 ''a'' c = Inr v \<and> v \<le> 100"
    by (simp_all add: exactOr99_def)
  from h s extractOne_exact_match_short
    [where scorer = exactOr99 and query = "''a''" and choices = "[''b'', ''a'']"
      and rt = "runtimeDrawing drawsZero", OF h]
  show ?thesis
    by blast
qed

text \<open>
  Claim C2: the results of \<open>extractTop\<close> are sorted by descending score, ties within 0.001
  broken by the text. The documentation of the function and its test suite say the same of
  the scores: no result has a greater score than the one before it. The code departs from
  it when two scores differ by less than 0.001 without being equal. With a score of 50 for
  \<open>''a''\<close> and of 50.0005 for \<open>''b''\<close> the comparator takes the two for tied and orders them by
  text, so that in every runtime that sorts two elements as its contract says, and whose
  collation puts \<open>''a''\<close> before \<open>''b''\<close>, the lower score comes first.
\<close>

theorem extract_scores_not_descending:
  assumes "sortsPairs (arraySort rt)"
    and "localeCompare rt ''a'' ''a'' = 0" and "localeCompare rt ''b'' ''b'' = 0"
    and "localeCompare rt ''a'' ''b'' < 0" and "0 < localeCompare rt ''b'' ''a''"
  shows "extractTop rt ''q'' [''a'', ''b''] nearTie 2
           = Inr [\<lparr>choice = ''a'', score = 50\<rparr>, \<lparr>choice = ''b'', score = 50.0005\<rparr>]
         \<and> \<not> descendingScores [\<lparr>choice = ''a'', score = 50\<rparr>, \<lparr>choice = ''b'', score = 50.0005\<rparr>]"
  using extract_nearTie [OF assms] by (simp add: descendingScores_def)

theorem extract_scores_not_descending_witness:
  "codeUnitOrder ''a'' ''a'' = 0 \<and> codeUnitOrder ''b'' ''b'' = 0
   \<and> codeUnitOrder ''a'' ''b'' < 0 \<and> 0 < codeUnitOrder ''b'' ''a''
   \<and> nearTie ''q'' ''a'' = Inr 50 \<and> nearTie ''q'' ''b'' = Inr 50.0005
   \<and> extractTop (runtimeDrawing drawsZero) ''q'' [''a'', ''b''] nearTie 2
       = Inr [\<lparr>choice = ''a'', score = 50\<rparr>, \<lparr>choice = ''b'', score = 50.0005\<rparr>]
   \<and> \<not> descendingScores [\<lparr>choice = ''a'', score = 50\<rparr>, \<lparr>choice = ''b'', score = 50.0005\<rparr>]"
proof -
  have h: "sortsPairs (arraySort (runtimeDrawing drawsZero))"
    "localeCompare (runtimeDrawing drawsZero) ''a'' ''a'' = 0"
    "localeCompare (runtimeDrawing drawsZero) ''b'' ''b'' = 0"
    "localeCompare (runtimeDrawing drawsZero) ''a'' ''b'' < 0"
    "0 < localeCompare (runtimeDrawing drawsZero) ''b'' ''a''"
    by (simp_all add: runtimeDrawing_def sortsPairs_insertionSort codeUnitOrder_def)
  have c: "codeUnitOrder ''a'' ''a'' = 0" "codeUnitOrder ''b'' ''b'' = 0"
    "codeUnitOrder ''a'' ''b'' < 0" "0 < codeUnitOrder ''b'' ''a''"
    "nearTie ''q'' ''a'' = Inr 50" "nearTie ''q'' ''b'' = Inr 50.0005"
    by (simp_all add: codeUnitOrder_def nearTie_def)
  from c extract_scores_not_descending [OF h]
  show ?thesis
    by blast
qed

text \<open>
  Claim C3. For a scorer that returns a number on every candidate, \<open>extractTop\<close> returns
  exactly \<open>min limit (length choices)\<close> results when \<open>limit > 0\<close>, in each of its three tiers,
  and the empty sequence when \<open>limit \<le> 0\<close> or there is no candidate.
\<close>

theorem extract_length:
  assumes "\<forall>c\<in>set choices. \<exists>v. scorer query c = Inr v"
  shows "\<exists>rs. extractTop rt query choices scorer limit = Inr rs
           \<and> length rs = (if limit > 0 then min (nat limit) (length choices) else 0)"
proof (cases "choices = [] \<or> limit \<le> 0")
  case True
  then show ?thesis by (auto simp: extract_empty)
next
  case False
  with assms extract_limit_results [of scorer query choices limit rt] show ?thesis
    by (auto simp: scoresAll_def)
qed

theorem extract_length_witness:
  "exactOr99 ''a'' ''b'' = Inr 99 \<and> exactOr99 ''a'' ''a'' = Inr 100 \<and> exactOr99 ''a'' ''c'' = Inr 99
   \<and> (\<exists>rs. extractTop (runtimeDrawing drawsZero) ''a'' [''b'', ''a'', ''c''] exactOr99 2 = Inr rs
            \<and> length rs = 2)"
proof -
  have s: "exactOr99 ''a'' ''b'' = Inr 99" "exactOr99 ''a'' ''a'' = Inr 100"
    "exactOr99 ''a'' ''c'' = Inr 99"
    by (simp_all add: exactOr99_def)
  then have h: "\<forall>c\<in>set [''b'', ''a'', ''c'']. \<exists>v. exactOr99 ''a'' c = Inr v"
    by simp
  from extract_length
    [where scorer = exactOr99 and query = "''a''" and choices = "[''b'', ''a'', ''c'']" and limit = 2
      and rt = "runtimeDrawing drawsZero", OF h]
  have
    "\<exists>rs. extractTop (runtimeDrawing drawsZero) ''a'' [''b'', ''a'', ''c''] exactOr99 2 = Inr rs
       \<and> length rs = 2"
    by (simp add: numeral_2_eq_2)
  with s show ?thesis by blast
qed

text \<open>
  Claim C6, as stated: two invocations of \<open>extractOne\<close> with identical arguments return
  identical results. It fails on 100001 candidates: the verification pass reads
  \<^verbatim>\<open>Math.random()\<close>, and two runs that draw different numbers return different results.
\<close>

theorem extractOne_depends_on_random:
  "extractOne (runtimeDrawing drawsZero) ''a'' drawnMatch exactOr99
     \<noteq> extractOne (runtimeDrawing drawsLow) ''a'' drawnMatch exactOr99"
  by (simp add: extractOne_drawsZero extractOne_drawsLow)

text \<open>
  Claim C6, amended. Take two invocations with identical arguments in one runtime, between
  which nothing differs but the numbers that \<^verbatim>\<open>Math.random()\<close> returns. Those of \<open>extractTop\<close>
  return identical result sequences. Those of \<open>extractOne\<close> return identical results if the
  verification pass is not reached, that is, unless there are more than 100000 candidates, the
  first candidate does not score 100 and the two sampling loops run to their end, without
  an exception and without a return, on a best score above 98; and if it is reached, they
  return identical results whenever the 100 numbers drawn in the pass are the same.
\<close>

theorem selection_deterministic_up_to_draws:
  "extractTop (rt\<lparr>mathRandom := draws\<rparr>) query choices scorer limit
     = extractTop rt query choices scorer limit
   \<and> ((reachesVerification query choices scorer \<longrightarrow> (\<forall>v<100. draws v = mathRandom rt v))
      \<longrightarrow> extractOne (rt\<lparr>mathRandom := draws\<rparr>) query choices scorer
            = extractOne rt query choices scorer)"
proof (intro conjI impI)
  show "extractTop (rt\<lparr>mathRandom := draws\<rparr>) query choices scorer limit
      = extractTop rt query choices scorer limit"
    by (rule extractTop_draws)
next
  assume "reachesVerification query choices scorer \<longrightarrow> (\<forall>v<100. draws v = mathRandom rt v)"
  then show "extractOne (rt\<lparr>mathRandom := draws\<rparr>) query choices scorer
      = extractOne rt query choices scorer"
    by (intro extractOne_same_draws) simp
qed

text \<open>
  Three pairs of runs on 100001 candidates. In the first the verification pass is reached,
  and the two runs draw the same 100 numbers (and differ in what \<^verbatim>\<open>Math.random()\<close> would
  return next). In the second no score is above 98, the pass is not reached, and the two
  runs are given different numbers. The third pair are runs of \<open>extractTop\<close>.
\<close>

theorem selection_deterministic_up_to_draws_witness:
  "reachesVerification ''a'' drawnMatch exactOr99
   \<and> drawsLate 0 = drawsZero 0 \<and> drawsLate 99 = drawsZero 99 \<and> drawsLate 100 \<noteq> drawsZero 100
   \<and> extractOne (runtimeDrawing drawsLate) ''a'' drawnMatch exactOr99
       = extractOne (runtimeDrawing drawsZero) ''a'' drawnMatch exactOr99
   \<and> \<not> reachesVerification ''a'' drawnMatch exactOr50
   \<and> drawsLow 0 \<noteq> drawsZero 0
   \<and> extractOne (runtimeDrawing drawsLow) ''a'' drawnMatch exactOr50
       = extractOne (runtimeDrawing drawsZero) ''a'' drawnMatch exactOr50
   \<and> extractTop (runtimeDrawing drawsLow) ''a'' drawnMatch exactOr99 3
       = extractTop (runtimeDrawing drawsZero) ''a'' drawnMatch exactOr99 3"
proof -
  have u: "(runtimeDrawing drawsZero)\<lparr>mathRandom := draws\<rparr> = runtimeDrawing draws" for draws
    by (simp add: runtimeDrawing_def)
  have same: "reachesVerification ''a'' drawnMatch exactOr99
      \<longrightarrow> (\<forall>v<100. drawsLate v = mathRandom (runtimeDrawing drawsZero) v)"
    by (simp add: runtimeDrawing_def drawsLate_def drawsZero_def)
  have none: "reachesVerification ''a'' drawnMatch exactOr50
      \<longrightarrow> (\<forall>v<100. drawsLow v = mathRandom (runtimeDrawing drawsZero) v)"
    by (simp add: reaches_exactOr50)
  have d: "drawsLate 0 = drawsZero 0" "drawsLate 99 = drawsZero 99" "drawsLate 100 \<noteq> drawsZero 100"
    "drawsLow 0 \<noteq> drawsZero 0"
    by (simp_all add: drawsLate_def drawsZero_def drawsLow_def)
  from selection_deterministic_up_to_draws
    [where rt = "runtimeDrawing drawsZero" and draws = drawsLate and query = "''a''"
      and choices = drawnMatch and scorer = exactOr99 and limit = 3] same
  have one: "extractOne (runtimeDrawing drawsLate) ''a'' drawnMatch exactOr99
      = extractOne (runtimeDrawing drawsZero) ''a'' drawnMatch exactOr99"
    by (simp add: u)
  from selection_deterministic_up_to_draws
    [where rt = "runtimeDrawing drawsZero" and draws = drawsLow and query = "''a''"
      and choices = drawnMatch and scorer = exactOr50 and limit = 3] none
  have two: "extractOne (runtimeDrawing drawsLow) ''a'' drawnMatch exactOr50
      = extractOne (runtimeDrawing drawsZero) ''a'' drawnMatch exactOr50"
    by (simp add: u)
  from selection_deterministic_up_to_draws
    [where rt = "runtimeDrawing drawsZero" and draws = drawsLow and query = "''a''"
      and choices = drawnMatch and scorer = exactOr99 and limit = 3]
  have three: "extractTop (runtimeDrawing drawsLow) ''a'' drawnMatch exactOr99 3
      = extractTop (runtimeDrawing drawsZero) ''a'' drawnMatch exactOr99 3"
    by (simp add: u)
  from reaches_exactOr99 reaches_exactOr50 d one two three show ?thesis
    by blast
qed

text \<open>
  Claim C7. If the scorer throws on every call, then on a non-empty list of candidates
  \<open>extractTop\<close> (for \<open>limit > 0\<close>) and \<open>extractOne\<close> throw what the scorer threw on its first
  call; neither returns a result.
\<close>

theorem scorer_exception_propagates:
  assumes "choices \<noteq> []" and "\<forall>s1 s2. \<exists>e. scorer s1 s2 = Inl e"
  shows "\<exists>e. scorer query (hd choices) = Inl e
           \<and> (0 < limit \<longrightarrow> extractTop rt query choices scorer limit = Inl e)
           \<and> extractOne rt query choices scorer = Inl e"
proof -
  from assms(2) obtain e where e: "scorer query (hd choices) = Inl e" by blast
  with assms(1) extract_first_throws [of choices limit scorer query e rt]
    extractOne_first_throws [of choices scorer query e rt]
  show ?thesis by blast
qed

theorem scorer_exception_propagates_witness:
  "[''apple''] \<noteq> [] \<and> (\<forall>s1 s2. \<exists>e. errorScorer s1 s2 = Inl e)
   \<and> extractTop (runtimeDrawing drawsZero) ''test'' [''apple''] errorScorer 5
       = Inl (Error ''Scorer error'')
   \<and> extractOne (runtimeDrawing drawsZero) ''test'' [''apple''] errorScorer
       = Inl (Error ''Scorer error'')"
proof -
  have h: "[''apple''] \<noteq> []" "\<forall>s1 s2. \<exists>e. errorScorer s1 s2 = Inl e"
    by (simp_all add: errorScorer_def)
  from scorer_exception_propagates
    [OF h, where query = "''test''" and limit = 5 and rt = "runtimeDrawing drawsZero"]
  obtain e where e: "errorScorer ''test'' (hd [''apple'']) = Inl e"
    and r: "extractTop (runtimeDrawing drawsZero) ''test'' [''apple''] errorScorer 5 = Inl e"
      "extractOne (runtimeDrawing drawsZero) ''test'' [''apple''] errorScorer = Inl e"
    by auto
  from e have "e = Error ''Scorer error''"
    by (simp add: errorScorer_def)
  with r h show ?thesis by blast
qed

end
